theory Spec2Isabelle
  imports Complex_Main "HOL-Library.Sublist"
begin

section \<open>JavaScript values as the gateway sees them\<close>

text \<open>
  A provider's response body (\<open>res.data\<close> of axios) is either a decoded JSON value or a
  plain string; \<open>undefined\<close> is what a missing property reads as. Numbers are kept as
  rationals: the code only ever tests a number for being zero. Strings are byte lists
  (the UTF-8 encoding of the JavaScript string). An object is the list of its own
  properties in enumeration order; \<open>JSON.parse\<close> never produces a repeated key.
\<close>

datatype jsval =
    JUndefined
  | JNull
  | JBool bool
  | JNum rat
  | JStr string
  | JArr "jsval list"
  | JObj "(string \<times> jsval) list"

text \<open>\<open>!x\<close> is \<open>\<not> truthy x\<close>: the falsy values are undefined, null, false, 0 and "".\<close>

fun truthy :: "jsval \<Rightarrow> bool" where
  "truthy JUndefined = False"
| "truthy JNull = False"
| "truthy (JBool b) = b"
| "truthy (JNum n) = (n \<noteq> 0)"
| "truthy (JStr s) = (s \<noteq> [])"
| "truthy (JArr xs) = True"
| "truthy (JObj kvs) = True"

fun is_string :: "jsval \<Rightarrow> bool" where
  "is_string (JStr s) = True"
| "is_string v = False"

fun nullish :: "jsval \<Rightarrow> bool" where
  "nullish JUndefined = True"
| "nullish JNull = True"
| "nullish v = False"

text \<open>
  \<open>v.k\<close> for the property names the code reads (result, answer, output, choices, text,
  message, content): only an object can own one of them, every other value reads as
  undefined. The code reads a property of a value only after it has found the value truthy
  or behind \<open>?.\<close>, so the TypeError of a read on null or undefined cannot happen.
\<close>

fun get_prop :: "jsval \<Rightarrow> string \<Rightarrow> jsval" where
  "get_prop (JObj kvs) k = (case map_of kvs k of Some v \<Rightarrow> v | None \<Rightarrow> JUndefined)"
| "get_prop v k = JUndefined"

text \<open>\<open>v[0]\<close>: the first element of an array, the first character of a string, the
  property \<open>"0"\<close> of an object. The character read from a string is only ever asked for
  one of the properties above, which it does not own.\<close>

fun index0 :: "jsval \<Rightarrow> jsval" where
  "index0 (JArr xs) = (case xs of [] \<Rightarrow> JUndefined | x # _ \<Rightarrow> x)"
| "index0 (JStr s) = (case s of [] \<Rightarrow> JUndefined | c # _ \<Rightarrow> JStr [c])"
| "index0 (JObj kvs) = get_prop (JObj kvs) ''0''"
| "index0 v = JUndefined"

text \<open>Optional chaining: \<open>v?.k\<close> and \<open>v?.[0]\<close> are undefined on null and undefined.\<close>

definition opt_prop :: "jsval \<Rightarrow> string \<Rightarrow> jsval" where
  "opt_prop v k = (if nullish v then JUndefined else get_prop v k)"

definition opt_index0 :: "jsval \<Rightarrow> jsval" where
  "opt_index0 v = (if nullish v then JUndefined else index0 v)"

section \<open>The answer normalizer\<close>

text \<open>
  \<open>extractAnswer\<close> of \<open>routes/proxy.js\<close>. \<open>JSON.stringify\<close> belongs to the runtime and
  is a parameter. The two \<open>choices\<close> branches return \<open>data.choices[0].text\<close> and
  \<open>data.choices[0].message.content\<close> without \<open>?.\<close>; they are reached only when the
  chained read was truthy, where both reads agree.
\<close>

definition extractAnswer :: "(jsval \<Rightarrow> string) \<Rightarrow> jsval \<Rightarrow> jsval" where
  "extractAnswer stringify data =
     (if \<not> truthy data then JNull
      else if is_string data then data
      else if truthy (get_prop data ''result'') then get_prop data ''result''
      else if truthy (get_prop data ''answer'') then get_prop data ''answer''
      else if truthy (get_prop data ''output'') then get_prop data ''output''
      else if truthy (opt_prop (opt_index0 (get_prop data ''choices'')) ''text'')
        then get_prop (index0 (get_prop data ''choices'')) ''text''
      else if truthy (opt_prop (opt_prop (opt_index0 (get_prop data ''choices'')) ''message'') ''content'')
        then get_prop (get_prop (index0 (get_prop data ''choices'')) ''message'') ''content''
      else JStr (stringify data))"

text \<open>A fixed serializer for the concrete evaluations below.\<close>

definition stub_stringify :: "jsval \<Rightarrow> string" where
  "stub_stringify d = ''<json>''"

section \<open>String operations of the runtime\<close>

text \<open>\<open>s.includes(pat)\<close>, \<open>s.startsWith(pat)\<close> (that is \<open>prefix pat s\<close>) and
  \<open>s.endsWith(pat)\<close>.\<close>

fun includes_str :: "string \<Rightarrow> string \<Rightarrow> bool" where
  "includes_str [] pat = (pat = [])"
| "includes_str (c # cs) pat = (prefix pat (c # cs) \<or> includes_str cs pat)"

definition endsWith :: "string \<Rightarrow> string \<Rightarrow> bool" where
  "endsWith s pat = prefix (rev pat) (rev s)"

text \<open>
  \<open>s.replace(/q=[^&]*/, r)\<close>: the leftmost \<open>q=\<close> together with the longest run of
  characters other than \<open>&\<close> after it is replaced by \<open>r\<close>; a string without \<open>q=\<close> is
  returned as it is. The replacement the code passes is \<open>q=\<close> followed by the output of
  \<open>encodeURIComponent\<close>, which holds no \<open>$\<close>, so no replacement pattern is expanded.
\<close>

fun replace_q :: "string \<Rightarrow> string \<Rightarrow> string" where
  "replace_q [] r = []"
| "replace_q (c # cs) r =
     (if prefix ''q='' (c # cs) then r @ dropWhile (\<lambda>x. x \<noteq> CHR ''&'') (drop 2 (c # cs))
      else c # replace_q cs r)"

text \<open>\<open>s.split("?")[0]\<close>: the part of \<open>s\<close> before its first \<open>?\<close>.\<close>

definition split_first :: "string \<Rightarrow> string" where
  "split_first s = takeWhile (\<lambda>c. c \<noteq> CHR ''?'') s"

text \<open>\<open>s.split(",")\<close>.\<close>

fun split_comma :: "string \<Rightarrow> string list" where
  "split_comma [] = [[]]"
| "split_comma (c # cs) =
     (if c = CHR '','' then [] # split_comma cs
      else (case split_comma cs of [] \<Rightarrow> [[c]] | x # xs \<Rightarrow> (c # x) # xs))"

text \<open>
  \<open>s.trim()\<close> strips the white space and the line terminators of ECMAScript from both
  ends: U+0009 to U+000D, U+0020, U+00A0, U+1680, U+2000 to U+200A, U+2028, U+2029,
  U+202F, U+205F, U+3000 and U+FEFF. On the UTF-8 bytes of a well-formed string each of
  them is one of the byte sequences of \<open>white_space\<close>, and a sequence found at an end of
  the string is that character.
\<close>

definition white_space :: "string list" where
  "white_space =
     [[CHR 0x09], [CHR 0x0A], [CHR 0x0B], [CHR 0x0C], [CHR 0x0D], [CHR 0x20],
      [CHR 0xC2, CHR 0xA0], [CHR 0xE1, CHR 0x9A, CHR 0x80],
      [CHR 0xE2, CHR 0x80, CHR 0x80], [CHR 0xE2, CHR 0x80, CHR 0x81],
      [CHR 0xE2, CHR 0x80, CHR 0x82], [CHR 0xE2, CHR 0x80, CHR 0x83],
      [CHR 0xE2, CHR 0x80, CHR 0x84], [CHR 0xE2, CHR 0x80, CHR 0x85],
      [CHR 0xE2, CHR 0x80, CHR 0x86], [CHR 0xE2, CHR 0x80, CHR 0x87],
      [CHR 0xE2, CHR 0x80, CHR 0x88], [CHR 0xE2, CHR 0x80, CHR 0x89],
      [CHR 0xE2, CHR 0x80, CHR 0x8A], [CHR 0xE2, CHR 0x80, CHR 0xA8],
      [CHR 0xE2, CHR 0x80, CHR 0xA9], [CHR 0xE2, CHR 0x80, CHR 0xAF],
      [CHR 0xE2, CHR 0x81, CHR 0x9F], [CHR 0xE3, CHR 0x80, CHR 0x80],
      [CHR 0xEF, CHR 0xBB, CHR 0xBF]]"

text \<open>Removing from the front of \<open>s\<close> as long as one of the sequences starts it.\<close>

function strip_start :: "string list \<Rightarrow> string \<Rightarrow> string" where
  "strip_start seqs s =
     (case find (\<lambda>x. x \<noteq> [] \<and> prefix x s) seqs of
        None \<Rightarrow> s
      | Some x \<Rightarrow> strip_start seqs (drop (length x) s))"
  by pat_completeness auto
termination
proof (relation "measure (\<lambda>(seqs, s). length s)")
  show "wf (measure (\<lambda>(seqs, s). length s))" by simp
next
  fix seqs :: "string list" and s x :: string
  assume "find (\<lambda>x. x \<noteq> [] \<and> prefix x s) seqs = Some x"
  then have "x \<noteq> []" and "prefix x s" by (auto simp: find_Some_iff)
  then have "length x \<le> length s" by (auto simp: prefix_def)
  with \<open>x \<noteq> []\<close>
  show "((seqs, drop (length x) s), (seqs, s)) \<in> measure (\<lambda>(seqs, s). length s)"
    by (cases x) auto
qed

definition trim :: "string \<Rightarrow> string" where
  "trim s = rev (strip_start (map rev white_space) (rev (strip_start white_space s)))"

text \<open>
  \<open>encodeURIComponent\<close> on the UTF-8 bytes of a well-formed string: letters, digits and
  \<open>- _ . ! ~ * ' ( )\<close> stay, every other byte becomes \<open>%XX\<close> in upper-case hexadecimal.
\<close>

definition unreserved :: "char \<Rightarrow> bool" where
  "unreserved c =
     (c \<in> set ''ABCDEFGHIJKLMNOPQRSTUVWXYZabcdefghijklmnopqrstuvwxyz0123456789-_.!~*()''
      \<or> c = CHR 0x27)"

definition hex_digit :: "nat \<Rightarrow> char" where
  "hex_digit n = ''0123456789ABCDEF'' ! (n mod 16)"

definition encode_char :: "char \<Rightarrow> string" where
  "encode_char c =
     (if unreserved c then [c]
      else [CHR ''%'', hex_digit (of_char c div 16), hex_digit (of_char c mod 16)])"

definition encodeURIComponent :: "string \<Rightarrow> string" where
  "encodeURIComponent s = concat (map encode_char s)"

section \<open>Configuration and requests\<close>

text \<open>
  The constants read from the environment when the module is loaded. \<open>KEY_MAP\<close> is the
  list of its (prefix, key) pairs in the order \<open>for ... in\<close> enumerates them.
\<close>

record config =
  PROVIDERS :: "string list"
  TIMEOUT :: nat
  ATTEMPTS :: nat
  CACHE_TTL :: nat
  KEY_MAP :: "(string \<times> string) list"

fun findKeyForProvider :: "(string \<times> string) list \<Rightarrow> string \<Rightarrow> string option" where
  "findKeyForProvider [] url = None"
| "findKeyForProvider ((pre, key) # kvs) url =
     (if prefix pre url then Some key else findKeyForProvider kvs url)"

text \<open>
  What the handler reads of the incoming request: \<open>body.q\<close>, \<open>query.q\<close>,
  \<open>body.providers\<close>, \<open>query.providers\<close> (each \<open>None\<close> when the field or its parent is
  missing) and \<open>req.file\<close>, of which only the path is used. The query is a text.
\<close>

record chat_request =
  body_q :: "string option"
  query_q :: "string option"
  body_providers :: "string option"
  query_providers :: "string option"
  upload :: "string option"

text \<open>\<open>a || b\<close> on optional strings: \<open>a\<close> when it is a non-empty string, else \<open>b\<close>.\<close>

fun or_else :: "string option \<Rightarrow> string option \<Rightarrow> string option" where
  "or_else (Some s) b = (if s \<noteq> [] then Some s else b)"
| "or_else None b = b"

text \<open>\<open>(req.body && req.body.q) || (req.query && req.query.q) || ""\<close>.\<close>

definition query_text :: "chat_request \<Rightarrow> string" where
  "query_text req = (case or_else (body_q req) (query_q req) of Some s \<Rightarrow> s | None \<Rightarrow> [])"

text \<open>The provider list of the handler: the request's own list when it names one,
  else \<open>PROVIDERS\<close>.\<close>

definition effective_providers :: "config \<Rightarrow> chat_request \<Rightarrow> string list" where
  "effective_providers cfg req =
     (case or_else (body_providers req) (query_providers req) of
        Some s \<Rightarrow> (if s \<noteq> [] then filter (\<lambda>p. p \<noteq> []) (map trim (split_comma s))
                   else PROVIDERS cfg)
      | None \<Rightarrow> PROVIDERS cfg)"

section \<open>Shaping the outbound request\<close>

datatype http_method = GET | POST

datatype part = FileStream string | TextField string

datatype body = Multipart "(string \<times> part) list" | JsonBody jsval | NoBody

record http_request =
  meth :: http_method
  url :: string
  headers :: "(string \<times> string) list"
  payload :: body
  timeout :: nat

text \<open>\<open>if (key) headers["Authorization"] = `Bearer ${key}`\<close>.\<close>

definition auth_header :: "config \<Rightarrow> string \<Rightarrow> (string \<times> string) list" where
  "auth_header cfg providerUrl =
     (case findKeyForProvider (KEY_MAP cfg) providerUrl of
        Some key \<Rightarrow> (if key \<noteq> [] then [(''Authorization'', ''Bearer '' @ key)] else [])
      | None \<Rightarrow> [])"

text \<open>The URL of the GET branch (\<open>urlToCall\<close>).\<close>

definition urlToCall :: "string \<Rightarrow> string \<Rightarrow> string" where
  "urlToCall providerUrl q =
     (if endsWith providerUrl ''='' then providerUrl @ encodeURIComponent q
      else if includes_str providerUrl ''=q''
        then replace_q providerUrl (''q='' @ encodeURIComponent q)
      else providerUrl @ encodeURIComponent q)"

text \<open>
  The body of the \<open>try\<close> block of \<open>callProvider\<close> up to the axios call: which request one
  attempt sends. The multipart content type of \<open>form.getHeaders()\<close> is written without its
  boundary.
\<close>

definition shape_multipart :: "config \<Rightarrow> string \<Rightarrow> string \<Rightarrow> string \<Rightarrow> http_request" where
  "shape_multipart cfg providerUrl q path =
     \<lparr>meth = POST, url = split_first providerUrl,
      headers = (''content-type'', ''multipart/form-data'') # auth_header cfg providerUrl,
      payload = Multipart ((''image'', FileStream path) #
                  (if q \<noteq> [] then [(''q'', TextField q)] else [])),
      timeout = TIMEOUT cfg\<rparr>"

definition shape_get :: "config \<Rightarrow> string \<Rightarrow> string \<Rightarrow> http_request" where
  "shape_get cfg providerUrl q =
     \<lparr>meth = GET, url = urlToCall providerUrl q,
      headers = auth_header cfg providerUrl, payload = NoBody, timeout = TIMEOUT cfg\<rparr>"

definition shape_json :: "config \<Rightarrow> string \<Rightarrow> string \<Rightarrow> http_request" where
  "shape_json cfg providerUrl q =
     \<lparr>meth = POST, url = providerUrl,
      headers = (''Content-Type'', ''application/json'') # auth_header cfg providerUrl,
      payload = JsonBody (JObj [(''q'', JStr q)]), timeout = TIMEOUT cfg\<rparr>"

definition shape :: "config \<Rightarrow> string \<Rightarrow> string \<Rightarrow> string option \<Rightarrow> http_request" where
  "shape cfg providerUrl q fl =
     (if fl \<noteq> None \<and> includes_str providerUrl ''image=''
        then shape_multipart cfg providerUrl q (the fl)
      else if includes_str providerUrl ''?'' \<and> includes_str providerUrl ''=''
              \<and> \<not> includes_str providerUrl ''image=''
        then shape_get cfg providerUrl q
      else shape_json cfg providerUrl q)"

section \<open>The outside world\<close>

text \<open>
  The network, the timer and the clock are outside the program. A world \<open>'w\<close> is their
  state: \<open>send\<close> is one axios call, which either resolves with the response body
  (\<open>Inr\<close>) or throws, a timeout included (\<open>Inl\<close>, the error's message); \<open>pause\<close> is a
  \<open>setTimeout\<close> awaited for so many milliseconds; \<open>clock\<close> is \<open>Date.now()\<close>.
\<close>

record 'w env =
  send :: "'w \<Rightarrow> http_request \<Rightarrow> (string + jsval) \<times> 'w"
  pause :: "'w \<Rightarrow> nat \<Rightarrow> 'w"
  clock :: "'w \<Rightarrow> nat"

text \<open>What a call of \<open>callProvider\<close> does to the world, in order: an axios call made
  in the attempt of the given index with its outcome, or a pause of so many milliseconds.\<close>

datatype event = Sent nat http_request "string + jsval" | Slept nat

datatype call_result = Success jsval | Failure string

section \<open>The provider caller\<close>

text \<open>
  The \<open>for\<close> loop of \<open>callProvider\<close> from a given value of \<open>attempt\<close>. Inside the loop
  \<open>attempt < ATTEMPTS\<close>, so \<open>ATTEMPTS - 1\<close> on naturals is the number the code compares with.
\<close>

function attempt_loop ::
  "config \<Rightarrow> 'w env \<Rightarrow> string \<Rightarrow> string \<Rightarrow> string option \<Rightarrow> nat \<Rightarrow> 'w
     \<Rightarrow> call_result \<times> event list \<times> 'w" where
  "attempt_loop cfg env providerUrl q fl attempt w =
     (if attempt < ATTEMPTS cfg then
        (case send env w (shape cfg providerUrl q fl) of
           (Inr data, w1) \<Rightarrow>
             (Success data, [Sent attempt (shape cfg providerUrl q fl) (Inr data)], w1)
         | (Inl err, w1) \<Rightarrow>
             if attempt = ATTEMPTS cfg - 1
             then (Failure err, [Sent attempt (shape cfg providerUrl q fl) (Inl err)], w1)
             else (case attempt_loop cfg env providerUrl q fl (attempt + 1)
                          (pause env w1 (200 * (attempt + 1))) of
                     (r, evs, w2) \<Rightarrow>
                       (r, Sent attempt (shape cfg providerUrl q fl) (Inl err)
                             # Slept (200 * (attempt + 1)) # evs, w2)))
      else (Failure ''Max attempts reached'', [], w))"
  by pat_completeness auto
termination
  by (relation "measure (\<lambda>(cfg, env, providerUrl, q, fl, attempt, w). ATTEMPTS cfg - attempt)")
     auto

definition callProvider ::
  "config \<Rightarrow> 'w env \<Rightarrow> string \<Rightarrow> chat_request \<Rightarrow> string option \<Rightarrow> 'w
     \<Rightarrow> call_result \<times> event list \<times> 'w" where
  "callProvider cfg env providerUrl originalReq fl w =
     attempt_loop cfg env providerUrl (query_text originalReq) fl 0 w"

section \<open>The response cache\<close>

text \<open>
  Modelled from the spec: the response cache of section 4.6 (the node-cache module is not
  among the sources). An entry holds its value and the time it expires at, in milliseconds,
  0 standing for never; a configured time-to-live of 0 seconds stores entries that never
  expire. \<open>get\<close> misses (\<open>undefined\<close>) on an absent key and on an entry whose time has
  passed, which it removes.
\<close>

type_synonym cache = "string \<Rightarrow> (jsval \<times> nat) option"

definition cache_get :: "cache \<Rightarrow> string \<Rightarrow> nat \<Rightarrow> jsval \<times> cache" where
  "cache_get c k now =
     (case c k of
        None \<Rightarrow> (JUndefined, c)
      | Some (v, t) \<Rightarrow> if t \<noteq> 0 \<and> t < now then (JUndefined, c(k := None)) else (v, c))"

definition cache_set :: "nat \<Rightarrow> cache \<Rightarrow> string \<Rightarrow> jsval \<Rightarrow> nat \<Rightarrow> cache" where
  "cache_set ttl c k v now = c(k \<mapsto> (v, if ttl = 0 then 0 else now + ttl * 1000))"

section \<open>The response object\<close>

text \<open>
  What the handler does with \<open>res\<close>, as Express 4 and the HTTP server of Node have it
  (neither is among the sources). \<open>res.status(n)\<close> sets the status code. \<open>res.send(x)\<close>
  with a number \<open>x\<close> takes \<open>x\<close> for the status code and sends the text Express has for
  that status; with a string it sends the string; with anything else it sends the JSON
  text of the value. Writing the head throws unless the status code, cut to a 32-bit
  integer, is from 100 to 999; the status code the failed call has set stays in \<open>res\<close>.
  The handler sends with the status 200, 400, 500 or 502, or with one that cannot be
  written; the statuses whose body Express drops do not occur with a string or a JSON
  text.
\<close>

datatype sent = Text string | Json jsval | StatusText rat

text \<open>What the client gets: a response with its status, or nothing when \<open>res.send\<close> threw
  outside every \<open>try\<close> and the handler's promise rejected.\<close>

datatype response = Response nat sent | Rejected

definition to_int32 :: "rat \<Rightarrow> int" where
  "to_int32 x = ((if 0 \<le> x then \<lfloor>x\<rfloor> else \<lceil>x\<rceil>) + 2 ^ 31) mod 2 ^ 32 - 2 ^ 31"

definition valid_status :: "rat \<Rightarrow> bool" where
  "valid_status x = (100 \<le> to_int32 x \<and> to_int32 x \<le> 999)"

definition write_head :: "rat \<Rightarrow> sent \<Rightarrow> response option" where
  "write_head statusCode b =
     (if valid_status statusCode then Some (Response (nat (to_int32 statusCode)) b) else None)"

text \<open>\<open>res.send(x)\<close> on a response whose status code is \<open>statusCode\<close>: the response sent,
  or \<open>None\<close> when it threw, and the status code afterwards.\<close>

fun res_send :: "rat \<Rightarrow> jsval \<Rightarrow> response option \<times> rat" where
  "res_send statusCode (JNum n) = (write_head n (StatusText n), n)"
| "res_send statusCode (JStr s) = (write_head statusCode (Text s), statusCode)"
| "res_send statusCode JNull = (write_head statusCode (Text []), statusCode)"
| "res_send statusCode JUndefined = (write_head statusCode (Text []), statusCode)"
| "res_send statusCode v = (write_head statusCode (Json v), statusCode)"

text \<open>A \<open>res.send\<close> outside every \<open>try\<close>.\<close>

definition res_send_uncaught :: "rat \<Rightarrow> jsval \<Rightarrow> response" where
  "res_send_uncaught statusCode x =
     (case fst (res_send statusCode x) of Some r \<Rightarrow> r | None \<Rightarrow> Rejected)"

section \<open>The chat endpoint\<close>

text \<open>One iteration of the provider loop as the handler saw it: the provider, what
  \<open>callProvider\<close> returned and what the call did.\<close>

record invocation =
  provider :: string
  outcome :: call_result
  events :: "event list"

text \<open>An iteration that did not return puts its invocation before those of the
  iterations after it.\<close>

definition continue_with ::
  "invocation \<Rightarrow> response \<times> invocation list \<times> cache \<times> 'w
     \<Rightarrow> response \<times> invocation list \<times> cache \<times> 'w" where
  "continue_with iv later = (case later of (r, ivs, c, w) \<Rightarrow> (r, iv # ivs, c, w))"

text \<open>
  The \<open>for (const providerUrl of providers)\<close> loop of the handler and the
  \<open>res.status(502).send(...)\<close> after it, from a given status code of \<open>res\<close>. The result
  is the response, the invocations in order, the cache and the world. \<open>callProvider\<close>
  catches what its attempts throw and returns a result. \<open>return res.send(answer)\<close> stands
  inside the \<open>try\<close>: when it throws, the \<open>catch\<close> of the loop logs the error and the loop
  goes on with the next provider, the answer already stored by \<open>cache.set\<close>.
\<close>

fun provider_loop ::
  "config \<Rightarrow> (jsval \<Rightarrow> string) \<Rightarrow> 'w env \<Rightarrow> chat_request \<Rightarrow> string \<Rightarrow> string list
     \<Rightarrow> rat \<Rightarrow> cache \<Rightarrow> 'w \<Rightarrow> response \<times> invocation list \<times> cache \<times> 'w" where
  "provider_loop cfg stringify env req cacheKey [] statusCode c w =
     (res_send_uncaught 502 (JStr ''All providers failed.''), [], c, w)"
| "provider_loop cfg stringify env req cacheKey (providerUrl # rest) statusCode c w =
     (case callProvider cfg env providerUrl req (upload req) w of
        (result, evs, w1) \<Rightarrow>
          (case result of
             Success data \<Rightarrow>
               if \<not> truthy (extractAnswer stringify data)
               then continue_with \<lparr>provider = providerUrl, outcome = result, events = evs\<rparr>
                      (provider_loop cfg stringify env req cacheKey rest statusCode c w1)
               else
                 (case res_send statusCode (extractAnswer stringify data) of
                    (Some r, statusCode1) \<Rightarrow>
                      (r, [\<lparr>provider = providerUrl, outcome = result, events = evs\<rparr>],
                       cache_set (CACHE_TTL cfg) c cacheKey (extractAnswer stringify data)
                         (clock env w1),
                       w1)
                  | (None, statusCode1) \<Rightarrow>
                      continue_with \<lparr>provider = providerUrl, outcome = result, events = evs\<rparr>
                        (provider_loop cfg stringify env req cacheKey rest statusCode1
                           (cache_set (CACHE_TTL cfg) c cacheKey (extractAnswer stringify data)
                              (clock env w1))
                           w1))
           | Failure err \<Rightarrow>
               continue_with \<lparr>provider = providerUrl, outcome = result, events = evs\<rparr>
                 (provider_loop cfg stringify env req cacheKey rest statusCode c w1)))"

text \<open>
  The handler of \<open>POST /chat\<close>, in the copy of \<open>routes/proxy.js\<close> that normalizes the
  provider's payload with \<open>extractAnswer\<close> and caches the answer; \<open>callProvider\<close> is the
  same in both copies of the file. The response object of a request starts with the
  status code 200. The sends before the loop stand outside every \<open>try\<close>.
\<close>

definition chat ::
  "config \<Rightarrow> (jsval \<Rightarrow> string) \<Rightarrow> 'w env \<Rightarrow> chat_request \<Rightarrow> cache \<Rightarrow> 'w
     \<Rightarrow> response \<times> invocation list \<times> cache \<times> 'w" where
  "chat cfg stringify env req c w =
     (if query_text req = [] \<and> upload req = None
        then (res_send_uncaught 400 (JStr ''Missing q (query) or file.''), [], c, w)
      else
        (case cache_get c (''chat:'' @ query_text req) (clock env w) of
           (cached, c1) \<Rightarrow>
             if truthy cached then (res_send_uncaught 200 cached, [], c1, w)
             else if effective_providers cfg req = []
               then (res_send_uncaught 500 (JStr ''No providers configured.''), [], c1, w)
             else provider_loop cfg stringify env req (''chat:'' @ query_text req)
                    (effective_providers cfg req) 200 c1 w))"

section \<open>Reading a run\<close>

text \<open>The number of axios calls among the events of a call.\<close>

fun is_sent :: "event \<Rightarrow> bool" where
  "is_sent (Sent i rq x) = True"
| "is_sent (Slept n) = False"

definition attempts :: "event list \<Rightarrow> nat" where
  "attempts evs = length (filter is_sent evs)"

text \<open>
  Doing the events again from a world: every axios call is made in the world the events
  before it have led to and must have the outcome the event holds, every pause is taken
  there. The result is the world after the last event, or \<open>None\<close> when a call has another
  outcome than its event says.
\<close>

fun replay :: "'w env \<Rightarrow> 'w \<Rightarrow> event list \<Rightarrow> 'w option" where
  "replay env w [] = Some w"
| "replay env w (Sent i rq x # evs) =
     (if fst (send env w rq) = x then replay env (snd (send env w rq)) evs else None)"
| "replay env w (Slept n # evs) = replay env (pause env w n) evs"

text \<open>
  The value the handler tests with \<open>if (!answer) continue\<close> after a call: the extracted
  answer of a successful call; a failed call never reaches the test and counts as \<open>null\<close>.
\<close>

fun answer_of :: "(jsval \<Rightarrow> string) \<Rightarrow> call_result \<Rightarrow> jsval" where
  "answer_of stringify (Success d) = extractAnswer stringify d"
| "answer_of stringify (Failure e) = JNull"

text \<open>The recognised fields of a payload in the order \<open>extractAnswer\<close> tests them.\<close>

definition probes :: "jsval \<Rightarrow> jsval list" where
  "probes data =
     [get_prop data ''result'', get_prop data ''answer'', get_prop data ''output'',
      opt_prop (opt_index0 (get_prop data ''choices'')) ''text'',
      opt_prop (opt_prop (opt_index0 (get_prop data ''choices'')) ''message'') ''content'']"

section \<open>The URL rule in the words of the specification\<close>

text \<open>
  The specification's order of the three cases of the GET branch, to be compared with
  \<open>urlToCall\<close>: a parameter \<open>q=\<close> first, a trailing \<open>=\<close> second, the raw suffix last.
\<close>

definition spec_urlToCall :: "string \<Rightarrow> string \<Rightarrow> string" where
  "spec_urlToCall providerUrl q =
     (if includes_str providerUrl ''q=''
        then replace_q providerUrl (''q='' @ encodeURIComponent q)
      else if endsWith providerUrl ''='' then providerUrl @ encodeURIComponent q
      else providerUrl @ encodeURIComponent q)"

text \<open>How often \<open>pat\<close> occurs in a string, overlapping occurrences counted.\<close>

fun occurrences :: "string \<Rightarrow> string \<Rightarrow> nat" where
  "occurrences [] pat = (if pat = [] then 1 else 0)"
| "occurrences (c # cs) pat = (if prefix pat (c # cs) then 1 else 0) + occurrences cs pat"

section \<open>Concrete inputs\<close>

text \<open>
  A configuration, requests and worlds on which the theorems below are exercised. The
  world of these examples is the time in milliseconds: a call that times out takes 7000 of
  them. In \<open>env_down\<close> every call times out; in \<open>env_ab\<close> the provider at \<open>a.test\<close> times
  out and the provider at \<open>b.test\<close> answers \<open>{"answer": "ok"}\<close>.
\<close>

definition cfg0 :: config where
  "cfg0 = \<lparr>PROVIDERS = [''http://a.test/ask'', ''http://b.test/ask?q=''], TIMEOUT = 7000,
            ATTEMPTS = 2, CACHE_TTL = 30, KEY_MAP = [(''http://b.test'', ''k1'')]\<rparr>"

definition cfg_none :: config where
  "cfg_none = \<lparr>PROVIDERS = [], TIMEOUT = 7000, ATTEMPTS = 2, CACHE_TTL = 30, KEY_MAP = []\<rparr>"

definition req_text :: "string \<Rightarrow> chat_request" where
  "req_text t = \<lparr>body_q = Some t, query_q = None, body_providers = None,
                  query_providers = None, upload = None\<rparr>"

definition req_image :: "string \<Rightarrow> string \<Rightarrow> chat_request" where
  "req_image t path = \<lparr>body_q = Some t, query_q = None, body_providers = None,
                        query_providers = None, upload = Some path\<rparr>"

definition req_nothing :: chat_request where
  "req_nothing = \<lparr>body_q = Some [], query_q = None, body_providers = None,
                   query_providers = None, upload = None\<rparr>"

definition send_down :: "nat \<Rightarrow> http_request \<Rightarrow> (string + jsval) \<times> nat" where
  "send_down w rq = (Inl ''timeout'', w + 7000)"

definition env_down :: "nat env" where
  "env_down = \<lparr>send = send_down, pause = (+), clock = id\<rparr>"

definition send_ab :: "nat \<Rightarrow> http_request \<Rightarrow> (string + jsval) \<times> nat" where
  "send_ab w rq =
     (if prefix ''http://b.test'' (url rq) then (Inr (JObj [(''answer'', JStr ''ok'')]), w + 1)
      else (Inl ''timeout'', w + 7000))"

definition env_ab :: "nat env" where
  "env_ab = \<lparr>send = send_ab, pause = (+), clock = id\<rparr>"

definition cache_foo :: cache where
  "cache_foo = Map.empty(''chat:foo'' \<mapsto> (JStr ''ok'', 30000))"

definition run_ab :: "response \<times> invocation list \<times> cache \<times> nat" where
  "run_ab = chat cfg0 stub_stringify env_ab (req_text ''foo'') Map.empty 0"

definition run_down :: "response \<times> invocation list \<times> cache \<times> nat" where
  "run_down = chat cfg0 stub_stringify env_down (req_text ''foo'') Map.empty 0"

definition send_42 :: "nat \<Rightarrow> http_request \<Rightarrow> (string + jsval) \<times> nat" where
  "send_42 w rq =
     (if prefix ''http://b.test'' (url rq) then (Inr (JStr ''B''), w + 1)
      else (Inr (JObj [(''result'', JNum 42)]), w + 1))"

definition env_42 :: "nat env" where
  "env_42 = \<lparr>send = send_42, pause = (+), clock = id\<rparr>"

definition cfg_a :: config where
  "cfg_a = \<lparr>PROVIDERS = [''http://a.test/ask''], TIMEOUT = 7000, ATTEMPTS = 2,
             CACHE_TTL = 30, KEY_MAP = []\<rparr>"

definition run_42 :: "response \<times> invocation list \<times> cache \<times> nat" where
  "run_42 = chat cfg0 stub_stringify env_42 (req_text ''foo'') Map.empty 0"

definition run_42_a :: "response \<times> invocation list \<times> cache \<times> nat" where
  "run_42_a = chat cfg_a stub_stringify env_42 (req_text ''foo'') Map.empty 0"

definition call_down :: "call_result \<times> event list \<times> nat" where
  "call_down = callProvider cfg0 env_down ''http://a.test/ask'' (req_text ''foo'') None 0"

lemmas concrete_defs = cfg0_def cfg_none_def req_text_def req_image_def req_nothing_def
  send_down_def env_down_def send_ab_def env_ab_def cache_foo_def run_ab_def run_down_def
  call_down_def send_42_def env_42_def cfg_a_def run_42_def run_42_a_def stub_stringify_def

lemmas eval_defs = chat_def query_text_def effective_providers_def cache_get_def cache_set_def
  callProvider_def shape_def shape_get_def shape_json_def shape_multipart_def
  urlToCall_def spec_urlToCall_def endsWith_def auth_header_def extractAnswer_def
  continue_with_def encodeURIComponent_def encode_char_def unreserved_def hex_digit_def
  split_first_def opt_prop_def opt_index0_def attempts_def res_send_uncaught_def
  write_head_def valid_status_def to_int32_def

section \<open>Facts about the string operations\<close>

lemma includes_str_iff: "includes_str s pat \<longleftrightarrow> (\<exists>a b. s = a @ pat @ b)"
proof (induction s)
  case Nil
  then show ?case by auto
next
  case (Cons c cs)
  show ?case
  proof
    assume "includes_str (c # cs) pat"
    then consider "prefix pat (c # cs)" | "includes_str cs pat" by auto
    then show "\<exists>a b. c # cs = a @ pat @ b"
    proof cases
      case 1
      then obtain b where "c # cs = pat @ b" by (auto simp: prefix_def)
      then have "c # cs = [] @ pat @ b" by simp
      then show ?thesis by blast
    next
      case 2
      with Cons.IH obtain a b where "cs = a @ pat @ b" by blast
      then have "c # cs = (c # a) @ pat @ b" by simp
      then show ?thesis by blast
    qed
  next
    assume "\<exists>a b. c # cs = a @ pat @ b"
    then obtain a b where ab: "c # cs = a @ pat @ b" by blast
    show "includes_str (c # cs) pat"
    proof (cases a)
      case Nil
      with ab have "prefix pat (c # cs)" by (simp add: prefix_def)
      then show ?thesis by simp
    next
      case (Cons x xs)
      with ab have "cs = xs @ pat @ b" by simp
      with Cons.IH have "includes_str cs pat" by blast
      then show ?thesis by simp
    qed
  qed
qed

lemma includes_str_middle: "includes_str (a @ pat @ b) pat"
  by (auto simp: includes_str_iff)

lemma includes_str_end: "includes_str (a @ pat) pat"
  using includes_str_middle [of a pat "[]"] by simp

lemma replace_q_decomp:
  "includes_str p ''q='' \<Longrightarrow>
   \<exists>pre old rest. p = pre @ ''q='' @ old @ rest \<and> \<not> includes_str (pre @ ''q'') ''q=''
      \<and> CHR ''&'' \<notin> set old \<and> (rest = [] \<or> hd rest = CHR ''&'')
      \<and> replace_q p r = pre @ r @ rest"
proof (induction p)
  case Nil
  then show ?case by simp
next
  case (Cons c cs)
  show ?case
  proof (cases "prefix ''q='' (c # cs)")
    case True
    then obtain tl where tl: "c # cs = ''q='' @ tl" by (auto simp: prefix_def)
    let ?old = "takeWhile (\<lambda>x. x \<noteq> CHR ''&'') tl"
    let ?rest = "dropWhile (\<lambda>x. x \<noteq> CHR ''&'') tl"
    have 1: "c # cs = [] @ ''q='' @ ?old @ ?rest" using tl by simp
    have 2: "\<not> includes_str ([] @ ''q'') ''q=''" by simp
    have 3: "CHR ''&'' \<notin> set ?old" by (auto dest: set_takeWhileD)
    have 4: "?rest = [] \<or> hd ?rest = CHR ''&''"
      using hd_dropWhile [of "\<lambda>x. x \<noteq> CHR ''&''" tl] by auto
    have 5: "replace_q (c # cs) r = [] @ r @ ?rest" using True tl by auto
    from 1 2 3 4 5 show ?thesis by blast
  next
    case False
    with Cons.prems have "includes_str cs ''q=''" by auto
    from Cons.IH [OF this] obtain pre old rest where
      d: "cs = pre @ ''q='' @ old @ rest" "\<not> includes_str (pre @ ''q'') ''q=''"
         "CHR ''&'' \<notin> set old" "rest = [] \<or> hd rest = CHR ''&''"
         "replace_q cs r = pre @ r @ rest"
      by blast
    have 1: "c # cs = (c # pre) @ ''q='' @ old @ rest" using d(1) by simp
    have "\<not> prefix ''q='' (c # pre @ ''q'')"
      using False d(1) by (cases pre) auto
    with d(2) have 2: "\<not> includes_str ((c # pre) @ ''q'') ''q=''" by simp
    have 5: "replace_q (c # cs) r = (c # pre) @ r @ rest" using False d(5) by auto
    from 1 2 d(3) d(4) 5 show ?thesis by blast
  qed
qed

text \<open>A provider list that holds only a no-break space and a line separator is empty after
  trimming, and white space of both kinds is stripped around an identifier.\<close>

lemma trim_unicode_space:
  "trim ([CHR 0xC2, CHR 0xA0] @ '' http://a.test/ask '' @ [CHR 0xE2, CHR 0x80, CHR 0xA8, CHR 0x0A])
     = ''http://a.test/ask''"
  by (simp add: trim_def white_space_def)

lemma effective_providers_unicode_space:
  "effective_providers cfg0
     \<lparr>body_q = Some ''foo'', query_q = None,
      body_providers = Some ([CHR 0xC2, CHR 0xA0] @ '','' @ [CHR 0xE2, CHR 0x80, CHR 0xA8]),
      query_providers = None, upload = None\<rparr> = []"
  by (simp add: effective_providers_def trim_def white_space_def)

section \<open>Facts about the retry loop\<close>

text \<open>The four ways one round of the loop can go.\<close>

lemma attempt_loop_done:
  "\<not> attempt < ATTEMPTS cfg \<Longrightarrow>
   attempt_loop cfg env providerUrl q fl attempt w = (Failure ''Max attempts reached'', [], w)"
  by (subst attempt_loop.simps) simp

lemma attempt_loop_ok:
  "attempt < ATTEMPTS cfg \<Longrightarrow> send env w (shape cfg providerUrl q fl) = (Inr d, w1) \<Longrightarrow>
   attempt_loop cfg env providerUrl q fl attempt w
     = (Success d, [Sent attempt (shape cfg providerUrl q fl) (Inr d)], w1)"
  by (subst attempt_loop.simps) simp

lemma attempt_loop_last:
  "attempt < ATTEMPTS cfg \<Longrightarrow> send env w (shape cfg providerUrl q fl) = (Inl e, w1) \<Longrightarrow>
   attempt = ATTEMPTS cfg - 1 \<Longrightarrow>
   attempt_loop cfg env providerUrl q fl attempt w
     = (Failure e, [Sent attempt (shape cfg providerUrl q fl) (Inl e)], w1)"
  by (subst attempt_loop.simps) simp

lemma attempt_loop_retry:
  "attempt < ATTEMPTS cfg \<Longrightarrow> send env w (shape cfg providerUrl q fl) = (Inl e, w1) \<Longrightarrow>
   attempt \<noteq> ATTEMPTS cfg - 1 \<Longrightarrow>
   attempt_loop cfg env providerUrl q fl (attempt + 1) (pause env w1 (200 * (attempt + 1)))
     = (r, evs, w2) \<Longrightarrow>
   attempt_loop cfg env providerUrl q fl attempt w
     = (r, Sent attempt (shape cfg providerUrl q fl) (Inl e) # Slept (200 * (attempt + 1)) # evs, w2)"
  by (subst attempt_loop.simps) simp

text \<open>An attempt that is made starts the events.\<close>

lemma attempt_loop_first:
  assumes "attempt < ATTEMPTS cfg"
      and "attempt_loop cfg env providerUrl q fl attempt w = (r, evs, w')"
  shows "\<exists>x rest. evs = Sent attempt (shape cfg providerUrl q fl) x # rest"
proof -
  obtain o1 w1 where s: "send env w (shape cfg providerUrl q fl) = (o1, w1)"
    by (cases "send env w (shape cfg providerUrl q fl)")
  show ?thesis
  proof (cases o1)
    case (Inr d)
    with assms s attempt_loop_ok [of attempt cfg env w providerUrl q fl d w1]
    show ?thesis by auto
  next
    case (Inl e)
    show ?thesis
    proof (cases "attempt = ATTEMPTS cfg - 1")
      case True
      with assms s Inl attempt_loop_last [of attempt cfg env w providerUrl q fl e w1]
      show ?thesis by auto
    next
      case False
      obtain r2 evs2 w2 where
        "attempt_loop cfg env providerUrl q fl (attempt + 1) (pause env w1 (200 * (attempt + 1)))
           = (r2, evs2, w2)"
        by (metis prod_cases3)
      with assms s Inl False attempt_loop_retry [of attempt cfg env w providerUrl q fl e w1 r2 evs2 w2]
      show ?thesis by auto
    qed
  qed
qed

text \<open>Every attempt of a call sends the same request.\<close>

lemma attempt_loop_sent:
  "attempt_loop cfg env providerUrl q fl attempt w = (res, evs, w') \<Longrightarrow>
   Sent i rq r \<in> set evs \<Longrightarrow> rq = shape cfg providerUrl q fl"
proof (induction cfg env providerUrl q fl attempt w arbitrary: res evs w' rule: attempt_loop.induct)
  case (1 cfg env providerUrl q fl attempt w)
  show ?case
  proof (cases "attempt < ATTEMPTS cfg")
    case False
    with "1.prems" show ?thesis by (simp add: attempt_loop.simps)
  next
    case True
    obtain o1 w1 where s: "send env w (shape cfg providerUrl q fl) = (o1, w1)"
      by (cases "send env w (shape cfg providerUrl q fl)")
    show ?thesis
    proof (cases o1)
      case (Inr d)
      with True s "1.prems" show ?thesis
        by (subst (asm) attempt_loop.simps) auto
    next
      case (Inl err)
      show ?thesis
      proof (cases "attempt = ATTEMPTS cfg - 1")
        case last: True
        with True s Inl "1.prems" show ?thesis
          by (subst (asm) attempt_loop.simps) auto
      next
        case more: False
        obtain r2 evs2 w2 where rec:
          "attempt_loop cfg env providerUrl q fl (attempt + 1) (pause env w1 (200 * (attempt + 1))) = (r2, evs2, w2)"
          by (metis prod_cases3)
        from True s Inl more rec "1.prems"(1)
        have evs: "evs = Sent attempt (shape cfg providerUrl q fl) (Inl err) # Slept (200 * (attempt + 1)) # evs2"
          by (subst (asm) attempt_loop.simps) auto
        from "1.IH" [OF True s [symmetric] Inl more rec] 
        have "Sent i rq r \<in> set evs2 \<Longrightarrow> rq = shape cfg providerUrl q fl" .
        with evs "1.prems"(2) show ?thesis by auto
      qed
    qed
  qed
qed

text \<open>A failed attempt that is not the last one is followed by its pause and by the next
  attempt.\<close>

lemma attempt_loop_backoff:
  "attempt_loop cfg env providerUrl q fl attempt w = (r, evs, w') \<Longrightarrow>
   k < length evs \<Longrightarrow> evs ! k = Sent i rq (Inl e) \<Longrightarrow> i \<noteq> ATTEMPTS cfg - 1 \<Longrightarrow>
   k + 2 < length evs \<and> evs ! (k + 1) = Slept (200 * (i + 1))
     \<and> (\<exists>x. evs ! (k + 2) = Sent (i + 1) rq x)"
proof (induction cfg env providerUrl q fl attempt w arbitrary: r evs w' k
       rule: attempt_loop.induct)
  case (1 cfg env providerUrl q fl attempt w)
  show ?case
  proof (cases "attempt < ATTEMPTS cfg")
    case False
    with "1.prems" attempt_loop_done [of attempt cfg env providerUrl q fl w]
    show ?thesis by simp
  next
    case True
    obtain o1 w1 where s: "send env w (shape cfg providerUrl q fl) = (o1, w1)"
      by (cases "send env w (shape cfg providerUrl q fl)")
    show ?thesis
    proof (cases o1)
      case (Inr d)
      with True s "1.prems" attempt_loop_ok [of attempt cfg env w providerUrl q fl d w1]
      show ?thesis by auto
    next
      case (Inl err)
      show ?thesis
      proof (cases "attempt = ATTEMPTS cfg - 1")
        case last: True
        with True s Inl "1.prems" attempt_loop_last [of attempt cfg env w providerUrl q fl err w1]
        show ?thesis by auto
      next
        case more: False
        obtain r2 evs2 w2 where rec:
          "attempt_loop cfg env providerUrl q fl (attempt + 1) (pause env w1 (200 * (attempt + 1)))
             = (r2, evs2, w2)"
          by (metis prod_cases3)
        from True s Inl more rec "1.prems"(1)
          attempt_loop_retry [of attempt cfg env w providerUrl q fl err w1 r2 evs2 w2]
        have evs: "evs = Sent attempt (shape cfg providerUrl q fl) (Inl err)
                          # Slept (200 * (attempt + 1)) # evs2"
          by simp
        from more True have next_in: "attempt + 1 < ATTEMPTS cfg" by simp
        from attempt_loop_first [OF next_in rec]
        obtain x rest where evs2: "evs2 = Sent (attempt + 1) (shape cfg providerUrl q fl) x # rest"
          by blast
        consider "k = 0" | "k = 1" | "2 \<le> k" by linarith
        then show ?thesis
        proof cases
          case 1
          with evs evs2 "1.prems" show ?thesis by simp
        next
          case 2
          with evs "1.prems" show ?thesis by simp
        next
          case 3
          then obtain j where k: "k = j + 2" by (metis add.commute le_Suc_ex)
          with evs "1.prems" have j: "j < length evs2" "evs2 ! j = Sent i rq (Inl e)" by simp_all
          from "1.IH" [OF True s [symmetric] Inl more rec j "1.prems"(4)]
          show ?thesis using evs k by simp
        qed
      qed
    qed
  qed
qed

text \<open>The attempt budget, and what a call returns when all its attempts failed.\<close>

lemma attempt_loop_budget:
  "attempt_loop cfg env providerUrl q fl attempt w = (r, evs, w') \<Longrightarrow>
   attempts evs \<le> ATTEMPTS cfg - attempt"
proof (induction cfg env providerUrl q fl attempt w arbitrary: r evs w'
       rule: attempt_loop.induct)
  case (1 cfg env providerUrl q fl attempt w)
  show ?case
  proof (cases "attempt < ATTEMPTS cfg")
    case False
    with "1.prems" attempt_loop_done [of attempt cfg env providerUrl q fl w]
    show ?thesis by (simp add: attempts_def)
  next
    case True
    obtain o1 w1 where s: "send env w (shape cfg providerUrl q fl) = (o1, w1)"
      by (cases "send env w (shape cfg providerUrl q fl)")
    show ?thesis
    proof (cases o1)
      case (Inr d)
      with True s "1.prems" attempt_loop_ok [of attempt cfg env w providerUrl q fl d w1]
      show ?thesis by (auto simp: attempts_def)
    next
      case (Inl err)
      show ?thesis
      proof (cases "attempt = ATTEMPTS cfg - 1")
        case last: True
        with True s Inl "1.prems" attempt_loop_last [of attempt cfg env w providerUrl q fl err w1]
        show ?thesis by (auto simp: attempts_def)
      next
        case more: False
        obtain r2 evs2 w2 where rec:
          "attempt_loop cfg env providerUrl q fl (attempt + 1) (pause env w1 (200 * (attempt + 1)))
             = (r2, evs2, w2)"
          by (metis prod_cases3)
        from True s Inl more rec "1.prems"(1)
          attempt_loop_retry [of attempt cfg env w providerUrl q fl err w1 r2 evs2 w2]
        have evs: "evs = Sent attempt (shape cfg providerUrl q fl) (Inl err)
                          # Slept (200 * (attempt + 1)) # evs2"
          by simp
        from "1.IH" [OF True s [symmetric] Inl more rec]
        have "attempts evs2 \<le> ATTEMPTS cfg - (attempt + 1)" .
        with evs True show ?thesis by (simp add: attempts_def)
      qed
    qed
  qed
qed

lemma attempt_loop_all_failed:
  "attempt_loop cfg env providerUrl q fl attempt w = (r, evs, w') \<Longrightarrow>
   (\<forall>i rq x. Sent i rq x \<in> set evs \<longrightarrow> isl x) \<Longrightarrow>
   attempts evs = ATTEMPTS cfg - attempt
   \<and> (if attempt < ATTEMPTS cfg
       then \<exists>e. r = Failure e \<and> last evs = Sent (ATTEMPTS cfg - 1) (shape cfg providerUrl q fl) (Inl e)
       else r = Failure ''Max attempts reached'' \<and> evs = [])"
proof (induction cfg env providerUrl q fl attempt w arbitrary: r evs w'
       rule: attempt_loop.induct)
  case (1 cfg env providerUrl q fl attempt w)
  show ?case
  proof (cases "attempt < ATTEMPTS cfg")
    case False
    with "1.prems" attempt_loop_done [of attempt cfg env providerUrl q fl w]
    show ?thesis by (simp add: attempts_def)
  next
    case True
    obtain o1 w1 where s: "send env w (shape cfg providerUrl q fl) = (o1, w1)"
      by (cases "send env w (shape cfg providerUrl q fl)")
    show ?thesis
    proof (cases o1)
      case (Inr d)
      with True s "1.prems" attempt_loop_ok [of attempt cfg env w providerUrl q fl d w1]
      show ?thesis by (auto simp: attempts_def)
    next
      case (Inl err)
      show ?thesis
      proof (cases "attempt = ATTEMPTS cfg - 1")
        case last: True
        with True s Inl "1.prems" attempt_loop_last [of attempt cfg env w providerUrl q fl err w1]
        show ?thesis by (auto simp: attempts_def)
      next
        case more: False
        obtain r2 evs2 w2 where rec:
          "attempt_loop cfg env providerUrl q fl (attempt + 1) (pause env w1 (200 * (attempt + 1)))
             = (r2, evs2, w2)"
          by (metis prod_cases3)
        from True s Inl more rec "1.prems"(1)
          attempt_loop_retry [of attempt cfg env w providerUrl q fl err w1 r2 evs2 w2]
        have evs: "evs = Sent attempt (shape cfg providerUrl q fl) (Inl err)
                          # Slept (200 * (attempt + 1)) # evs2" and r: "r = r2"
          by simp_all
        from more True have next_in: "attempt + 1 < ATTEMPTS cfg" by simp
        from evs "1.prems"(2) have "\<forall>i rq x. Sent i rq x \<in> set evs2 \<longrightarrow> isl x" by simp
        from "1.IH" [OF True s [symmetric] Inl more rec this] next_in
        have a: "attempts evs2 = ATTEMPTS cfg - (attempt + 1)"
          and l: "\<exists>e. r2 = Failure e \<and> last evs2 = Sent (ATTEMPTS cfg - 1) (shape cfg providerUrl q fl) (Inl e)"
          by simp_all
        from attempt_loop_first [OF next_in rec] have "evs2 \<noteq> []" by auto
        with evs a l r True show ?thesis by (auto simp: attempts_def)
      qed
    qed
  qed
qed

section \<open>Facts about replaying events\<close>

lemma replay_append:
  "replay env w (xs @ ys) =
     (case replay env w xs of None \<Rightarrow> None | Some w1 \<Rightarrow> replay env w1 ys)"
  by (induction env w xs rule: replay.induct) auto

lemma replay_split:
  assumes "replay env w evs = Some w'"
  shows "\<exists>w0. replay env w (take k evs) = Some w0 \<and> replay env w0 (drop k evs) = Some w'"
proof -
  from assms have "replay env w (take k evs @ drop k evs) = Some w'" by simp
  from this [unfolded replay_append] show ?thesis by (auto split: option.splits)
qed

lemma replay_sent:
  "replay env w evs = Some w' \<Longrightarrow> Sent i rq x \<in> set evs \<Longrightarrow> \<exists>w0. fst (send env w0 rq) = x"
  by (induction env w evs rule: replay.induct) (auto split: if_splits)

lemma attempt_loop_replay:
  "attempt_loop cfg env providerUrl q fl attempt w = (r, evs, w') \<Longrightarrow>
   replay env w evs = Some w'"
proof (induction cfg env providerUrl q fl attempt w arbitrary: r evs w'
       rule: attempt_loop.induct)
  case (1 cfg env providerUrl q fl attempt w)
  show ?case
  proof (cases "attempt < ATTEMPTS cfg")
    case False
    with "1.prems" attempt_loop_done [of attempt cfg env providerUrl q fl w]
    show ?thesis by simp
  next
    case True
    obtain o1 w1 where s: "send env w (shape cfg providerUrl q fl) = (o1, w1)"
      by (cases "send env w (shape cfg providerUrl q fl)")
    show ?thesis
    proof (cases o1)
      case (Inr d)
      with True s "1.prems" attempt_loop_ok [of attempt cfg env w providerUrl q fl d w1]
      show ?thesis by auto
    next
      case (Inl err)
      show ?thesis
      proof (cases "attempt = ATTEMPTS cfg - 1")
        case last: True
        with True s Inl "1.prems" attempt_loop_last [of attempt cfg env w providerUrl q fl err w1]
        show ?thesis by auto
      next
        case more: False
        obtain r2 evs2 w2 where rec:
          "attempt_loop cfg env providerUrl q fl (attempt + 1) (pause env w1 (200 * (attempt + 1)))
             = (r2, evs2, w2)"
          by (metis prod_cases3)
        from True s Inl more rec "1.prems"(1)
          attempt_loop_retry [of attempt cfg env w providerUrl q fl err w1 r2 evs2 w2]
        have evs: "evs = Sent attempt (shape cfg providerUrl q fl) (Inl err)
                          # Slept (200 * (attempt + 1)) # evs2" and w': "w' = w2"
          by simp_all
        from "1.IH" [OF True s [symmetric] Inl more rec]
        have "replay env (pause env w1 (200 * (attempt + 1))) evs2 = Some w2" .
        with evs w' s Inl show ?thesis by simp
      qed
    qed
  qed
qed

section \<open>Facts about the response object\<close>

lemma valid_status_handler:
  "valid_status 200" "valid_status 400" "valid_status 500" "valid_status 502"
  by (simp_all add: valid_status_def to_int32_def)

lemma to_int32_handler:
  "to_int32 200 = 200" "to_int32 400 = 400" "to_int32 500 = 500" "to_int32 502 = 502"
  by (simp_all add: to_int32_def)

lemma res_send_uncaught_handler:
  "res_send_uncaught 400 (JStr s) = Response 400 (Text s)"
  "res_send_uncaught 500 (JStr s) = Response 500 (Text s)"
  "res_send_uncaught 502 (JStr s) = Response 502 (Text s)"
  by (simp_all add: res_send_uncaught_def write_head_def valid_status_handler to_int32_handler)

lemma res_send_threw: "res_send sc a = (None, sc1) \<Longrightarrow> \<not> valid_status sc1"
  by (cases a) (auto simp: write_head_def split: if_splits)

lemma res_send_fresh:
  "sc = 200 \<or> \<not> valid_status sc \<Longrightarrow> res_send sc a = (Some r, sc1) \<Longrightarrow>
   fst (res_send 200 a) = Some r"
  by (cases a) (auto simp: write_head_def split: if_splits)

section \<open>Facts about the provider loop and the handler\<close>

lemma provider_loop_step:
  assumes "callProvider cfg env p req (upload req) w = (res, evs, w1)"
  shows "provider_loop cfg sf env req key (p # rest) sc c w =
     (if \<not> truthy (answer_of sf res)
      then continue_with \<lparr>provider = p, outcome = res, events = evs\<rparr>
             (provider_loop cfg sf env req key rest sc c w1)
      else (case res_send sc (answer_of sf res) of
              (Some r, sc1) \<Rightarrow>
                (r, [\<lparr>provider = p, outcome = res, events = evs\<rparr>],
                 cache_set (CACHE_TTL cfg) c key (answer_of sf res) (clock env w1), w1)
            | (None, sc1) \<Rightarrow>
                continue_with \<lparr>provider = p, outcome = res, events = evs\<rparr>
                  (provider_loop cfg sf env req key rest sc1
                     (cache_set (CACHE_TTL cfg) c key (answer_of sf res) (clock env w1)) w1)))"
  using assms by (cases res) (auto split: prod.splits option.splits)

text \<open>One round of the loop either sends the answer and returns, or goes on.\<close>

lemma provider_loop_round:
  assumes run: "provider_loop cfg sf env req key (p # rest) sc c w = (resp, ivs, c', w')"
  obtains (sent) res evs sc1 where
      "callProvider cfg env p req (upload req) w = (res, evs, w')"
      "truthy (answer_of sf res)"
      "res_send sc (answer_of sf res) = (Some resp, sc1)"
      "ivs = [\<lparr>provider = p, outcome = res, events = evs\<rparr>]"
      "c' = cache_set (CACHE_TTL cfg) c key (answer_of sf res) (clock env w')"
  | (unusable) res evs w1 ivs2 where
      "callProvider cfg env p req (upload req) w = (res, evs, w1)"
      "\<not> truthy (answer_of sf res)"
      "ivs = \<lparr>provider = p, outcome = res, events = evs\<rparr> # ivs2"
      "provider_loop cfg sf env req key rest sc c w1 = (resp, ivs2, c', w')"
  | (threw) res evs w1 sc1 ivs2 where
      "callProvider cfg env p req (upload req) w = (res, evs, w1)"
      "truthy (answer_of sf res)"
      "res_send sc (answer_of sf res) = (None, sc1)"
      "ivs = \<lparr>provider = p, outcome = res, events = evs\<rparr> # ivs2"
      "provider_loop cfg sf env req key rest sc1
         (cache_set (CACHE_TTL cfg) c key (answer_of sf res) (clock env w1)) w1
         = (resp, ivs2, c', w')"
proof -
  obtain res evs w1 where cp: "callProvider cfg env p req (upload req) w = (res, evs, w1)"
    by (metis prod_cases3)
  note step = provider_loop_step [OF cp, of sf key rest sc c]
  show thesis
  proof (cases "truthy (answer_of sf res)")
    case False
    obtain r2 ivs2 c2 w2 where rec:
      "provider_loop cfg sf env req key rest sc c w1 = (r2, ivs2, c2, w2)"
      by (metis prod_cases4)
    with False run step have "resp = r2" "ivs = \<lparr>provider = p, outcome = res, events = evs\<rparr> # ivs2"
      "c' = c2" "w' = w2"
      by (simp_all add: continue_with_def)
    with cp False rec show thesis by (intro unusable) auto
  next
    case True
    obtain o1 sc1 where rs: "res_send sc (answer_of sf res) = (o1, sc1)"
      by (cases "res_send sc (answer_of sf res)")
    show thesis
    proof (cases o1)
      case (Some r)
      with True rs run step have "resp = r" "ivs = [\<lparr>provider = p, outcome = res, events = evs\<rparr>]"
        "c' = cache_set (CACHE_TTL cfg) c key (answer_of sf res) (clock env w1)" "w' = w1"
        by simp_all
      with cp True rs Some show thesis by (intro sent) auto
    next
      case None
      obtain r2 ivs2 c2 w2 where rec:
        "provider_loop cfg sf env req key rest sc1
           (cache_set (CACHE_TTL cfg) c key (answer_of sf res) (clock env w1)) w1
           = (r2, ivs2, c2, w2)"
        by (metis prod_cases4)
      with True rs None run step have "resp = r2"
        "ivs = \<lparr>provider = p, outcome = res, events = evs\<rparr> # ivs2" "c' = c2" "w' = w2"
        by (simp_all add: continue_with_def)
      with cp True rs None rec show thesis by (intro threw) auto
    qed
  qed
qed

lemma provider_loop_order:
  "provider_loop cfg sf env req key ps sc c w = (resp, ivs, c', w') \<Longrightarrow>
   map provider ivs = take (length ivs) ps"
proof (induction ps arbitrary: sc c w ivs)
  case Nil
  then show ?case by simp
next
  case (Cons p rest)
  from Cons.prems show ?case
  proof (cases rule: provider_loop_round)
    case (sent res evs sc1)
    then show ?thesis by simp
  next
    case (unusable res evs w1 ivs2)
    with Cons.IH [OF unusable(4)] show ?thesis by simp
  next
    case (threw res evs w1 sc1 ivs2)
    with Cons.IH [OF threw(5)] show ?thesis by simp
  qed
qed

lemma provider_loop_calls:
  "provider_loop cfg sf env req key ps sc c w = (resp, ivs, c', w') \<Longrightarrow> iv \<in> set ivs \<Longrightarrow>
   \<exists>w0 w1. callProvider cfg env (provider iv) req (upload req) w0 = (outcome iv, events iv, w1)"
proof (induction ps arbitrary: sc c w ivs)
  case Nil
  then show ?case by simp
next
  case (Cons p rest)
  have here: "\<exists>w0 w1. callProvider cfg env (provider iv) req (upload req) w0
                 = (outcome iv, events iv, w1)"
    if "callProvider cfg env p req (upload req) w = (res, evs, w1)"
      and "iv = \<lparr>provider = p, outcome = res, events = evs\<rparr>" for res evs w1
  proof -
    from that have "callProvider cfg env (provider iv) req (upload req) w
                      = (outcome iv, events iv, w1)" by simp
    then show ?thesis by blast
  qed
  from Cons.prems(1) show ?case
  proof (cases rule: provider_loop_round)
    case (sent res evs sc1)
    with Cons.prems(2) have "iv = \<lparr>provider = p, outcome = res, events = evs\<rparr>" by simp
    from here [OF sent(1) this] show ?thesis .
  next
    case (unusable res evs w1 ivs2)
    with Cons.prems(2) consider "iv = \<lparr>provider = p, outcome = res, events = evs\<rparr>"
      | "iv \<in> set ivs2" by auto
    then show ?thesis
    proof cases
      case 1
      from here [OF unusable(1) 1] show ?thesis .
    next
      case 2
      from Cons.IH [OF unusable(4) 2] show ?thesis .
    qed
  next
    case (threw res evs w1 sc1 ivs2)
    with Cons.prems(2) consider "iv = \<lparr>provider = p, outcome = res, events = evs\<rparr>"
      | "iv \<in> set ivs2" by auto
    then show ?thesis
    proof cases
      case 1
      from here [OF threw(1) 1] show ?thesis .
    next
      case 2
      from Cons.IH [OF threw(5) 2] show ?thesis .
    qed
  qed
qed

lemma callProvider_replay:
  "callProvider cfg env p req fl w = (res, evs, w1) \<Longrightarrow> replay env w evs = Some w1"
  unfolding callProvider_def by (rule attempt_loop_replay)

lemma provider_loop_replay:
  "provider_loop cfg sf env req key ps sc c w = (resp, ivs, c', w') \<Longrightarrow>
   replay env w (concat (map events ivs)) = Some w'"
proof (induction ps arbitrary: sc c w ivs)
  case Nil
  then show ?case by simp
next
  case (Cons p rest)
  from Cons.prems show ?case
  proof (cases rule: provider_loop_round)
    case (sent res evs sc1)
    with callProvider_replay [OF sent(1)] show ?thesis by simp
  next
    case (unusable res evs w1 ivs2)
    with callProvider_replay [OF unusable(1)] Cons.IH [OF unusable(4)]
    show ?thesis by (simp add: replay_append)
  next
    case (threw res evs w1 sc1 ivs2)
    with callProvider_replay [OF threw(1)] Cons.IH [OF threw(5)]
    show ?thesis by (simp add: replay_append)
  qed
qed

lemma provider_loop_unusable:
  "provider_loop cfg sf env req key ps sc c w = (resp, ivs, c', w') \<Longrightarrow>
   \<forall>iv \<in> set ivs. \<not> truthy (answer_of sf (outcome iv)) \<Longrightarrow>
   resp = Response 502 (Text ''All providers failed.'') \<and> length ivs = length ps \<and> c' = c"
proof (induction ps arbitrary: sc c w ivs)
  case Nil
  then show ?case by (simp add: res_send_uncaught_handler)
next
  case (Cons p rest)
  from Cons.prems(1) show ?case
  proof (cases rule: provider_loop_round)
    case (sent res evs sc1)
    with Cons.prems(2) show ?thesis by simp
  next
    case (unusable res evs w1 ivs2)
    with Cons.prems(2) Cons.IH [OF unusable(4)] show ?thesis by simp
  next
    case (threw res evs w1 sc1 ivs2)
    with Cons.prems(2) show ?thesis by simp
  qed
qed

lemma provider_loop_sent:
  "provider_loop cfg sf env req key ps sc c w = (resp, ivs, c', w') \<Longrightarrow>
   sc = 200 \<or> \<not> valid_status sc \<Longrightarrow>
   resp \<noteq> Response 502 (Text ''All providers failed.'') \<Longrightarrow>
   ivs \<noteq> [] \<and> truthy (answer_of sf (outcome (last ivs)))
   \<and> fst (res_send 200 (answer_of sf (outcome (last ivs)))) = Some resp
   \<and> c' key = Some (answer_of sf (outcome (last ivs)),
                     if CACHE_TTL cfg = 0 then 0 else clock env w' + CACHE_TTL cfg * 1000)"
proof (induction ps arbitrary: sc c w ivs)
  case Nil
  then show ?case by (simp add: res_send_uncaught_handler)
next
  case (Cons p rest)
  from Cons.prems(1) show ?case
  proof (cases rule: provider_loop_round)
    case (sent res evs sc1)
    with res_send_fresh [OF Cons.prems(2) sent(3)] show ?thesis
      by (simp add: cache_set_def)
  next
    case (unusable res evs w1 ivs2)
    from Cons.IH [OF unusable(4) Cons.prems(2) Cons.prems(3)] unusable(3)
    show ?thesis by simp
  next
    case (threw res evs w1 sc1 ivs2)
    from res_send_threw [OF threw(3)] have "sc1 = 200 \<or> \<not> valid_status sc1" by simp
    from Cons.IH [OF threw(5) this Cons.prems(3)] threw(4)
    show ?thesis by simp
  qed
qed

lemma cache_get_live:
  "c k = Some (v, t) \<Longrightarrow> t = 0 \<or> now \<le> t \<Longrightarrow> cache_get c k now = (v, c)"
  by (auto simp: cache_get_def)

lemma chat_valid:
  assumes "query_text req \<noteq> [] \<or> upload req \<noteq> None"
  shows "chat cfg sf env req c w =
     (case cache_get c (''chat:'' @ query_text req) (clock env w) of
        (cached, c1) \<Rightarrow>
          if truthy cached then (res_send_uncaught 200 cached, [], c1, w)
          else if effective_providers cfg req = []
            then (Response 500 (Text ''No providers configured.''), [], c1, w)
          else provider_loop cfg sf env req (''chat:'' @ query_text req)
                 (effective_providers cfg req) 200 c1 w)"
  using assms by (auto simp: chat_def res_send_uncaught_handler split: prod.splits)

section \<open>The fallback dispatcher: claim C1\<close>

text \<open>
  Claim C1 fails on the code. Provider A answers \<open>{"result": 42}\<close>: the call succeeds and
  the normalized answer 42 is usable. \<open>res.send(42)\<close> takes 42 for a status code and throws,
  the \<open>catch\<close> of the loop takes the error, and provider B is invoked after the first
  success. B's answer cannot be sent either, the status code being still 42, and the
  request ends with the 502.
\<close>

theorem send_failure_invokes_next_provider:
  "map provider (fst (snd run_42)) = [''http://a.test/ask'', ''http://b.test/ask?q='']
   \<and> map outcome (fst (snd run_42)) = [Success (JObj [(''result'', JNum 42)]), Success (JStr ''B'')]
   \<and> answer_of stub_stringify (Success (JObj [(''result'', JNum 42)])) = JNum 42
   \<and> truthy (JNum 42)
   \<and> res_send 200 (JNum 42) = (None, 42)
   \<and> res_send 42 (JStr ''B'') = (None, 42)
   \<and> fst run_42 = Response 502 (Text ''All providers failed.'')"
  by (simp add: concrete_defs eval_defs)

section \<open>The URL of the GET shape: claim C2\<close>

text \<open>
  Claim C2, as the code has it: an identifier with \<open>?\<close> and \<open>=\<close> and without \<open>image=\<close>
  is sent as a GET, whether a file is attached or not. If the identifier ends with \<open>=\<close> the
  URL is the identifier followed by the encoded query text, also when it has a parameter
  \<open>q\<close>. Otherwise, if it contains both \<open>=q\<close> and \<open>q=\<close>, the leftmost \<open>q=\<close> and the
  characters up to the next \<open>&\<close> are replaced by \<open>q=\<close> and the encoded text; if it contains
  neither, the encoded text is appended. In these cases the URL contains the encoded text.
\<close>

theorem get_url_rule:
  assumes "includes_str providerUrl ''?''" and "includes_str providerUrl ''=''"
      and "\<not> includes_str providerUrl ''image=''"
  shows "meth (shape cfg providerUrl q fl) = GET
    \<and> (endsWith providerUrl ''=''
         \<longrightarrow> url (shape cfg providerUrl q fl) = providerUrl @ encodeURIComponent q)
    \<and> (\<not> endsWith providerUrl ''='' \<and> includes_str providerUrl ''=q''
          \<and> includes_str providerUrl ''q=''
         \<longrightarrow> (\<exists>pre old rest. providerUrl = pre @ ''q='' @ old @ rest
                \<and> \<not> includes_str (pre @ ''q'') ''q=''
                \<and> CHR ''&'' \<notin> set old \<and> (rest = [] \<or> hd rest = CHR ''&'')
                \<and> url (shape cfg providerUrl q fl) = pre @ ''q='' @ encodeURIComponent q @ rest))
    \<and> (\<not> endsWith providerUrl ''='' \<and> \<not> includes_str providerUrl ''=q''
          \<and> \<not> includes_str providerUrl ''q=''
         \<longrightarrow> url (shape cfg providerUrl q fl) = providerUrl @ encodeURIComponent q)
    \<and> (endsWith providerUrl ''='' \<or> includes_str providerUrl ''=q'' = includes_str providerUrl ''q=''
         \<longrightarrow> includes_str (url (shape cfg providerUrl q fl)) (encodeURIComponent q))"
proof -
  have sh: "shape cfg providerUrl q fl = shape_get cfg providerUrl q"
    using assms by (simp add: shape_def)
  have m: "meth (shape cfg providerUrl q fl) = GET" by (simp add: sh shape_get_def)
  have u: "url (shape cfg providerUrl q fl) = urlToCall providerUrl q"
    by (simp add: sh shape_get_def)
  have a: "endsWith providerUrl ''=''
         \<longrightarrow> url (shape cfg providerUrl q fl) = providerUrl @ encodeURIComponent q"
    by (simp add: u urlToCall_def)
  have b: "\<not> endsWith providerUrl ''='' \<and> includes_str providerUrl ''=q''
          \<and> includes_str providerUrl ''q=''
         \<longrightarrow> (\<exists>pre old rest. providerUrl = pre @ ''q='' @ old @ rest
                \<and> \<not> includes_str (pre @ ''q'') ''q=''
                \<and> CHR ''&'' \<notin> set old \<and> (rest = [] \<or> hd rest = CHR ''&'')
                \<and> url (shape cfg providerUrl q fl) = pre @ ''q='' @ encodeURIComponent q @ rest)"
  proof
    assume h: "\<not> endsWith providerUrl ''='' \<and> includes_str providerUrl ''=q''
          \<and> includes_str providerUrl ''q=''"
    then have "url (shape cfg providerUrl q fl)
                 = replace_q providerUrl (''q='' @ encodeURIComponent q)"
      by (simp add: u urlToCall_def)
    with replace_q_decomp [of providerUrl "''q='' @ encodeURIComponent q"] h
    show "\<exists>pre old rest. providerUrl = pre @ ''q='' @ old @ rest
                \<and> \<not> includes_str (pre @ ''q'') ''q=''
                \<and> CHR ''&'' \<notin> set old \<and> (rest = [] \<or> hd rest = CHR ''&'')
                \<and> url (shape cfg providerUrl q fl) = pre @ ''q='' @ encodeURIComponent q @ rest"
      by (metis append.assoc)
  qed
  have c: "\<not> endsWith providerUrl ''='' \<and> \<not> includes_str providerUrl ''=q''
          \<and> \<not> includes_str providerUrl ''q=''
         \<longrightarrow> url (shape cfg providerUrl q fl) = providerUrl @ encodeURIComponent q"
    by (simp add: u urlToCall_def)
  have d: "endsWith providerUrl ''='' \<or> includes_str providerUrl ''=q'' = includes_str providerUrl ''q=''
         \<longrightarrow> includes_str (url (shape cfg providerUrl q fl)) (encodeURIComponent q)"
  proof
    assume h: "endsWith providerUrl ''='' \<or> includes_str providerUrl ''=q'' = includes_str providerUrl ''q=''"
    show "includes_str (url (shape cfg providerUrl q fl)) (encodeURIComponent q)"
    proof (cases "endsWith providerUrl ''='' \<or> \<not> includes_str providerUrl ''=q''")
      case True
      then have "url (shape cfg providerUrl q fl) = providerUrl @ encodeURIComponent q"
        by (auto simp: u urlToCall_def)
      then show ?thesis by (simp add: includes_str_end)
    next
      case False
      with h b obtain pre rest where
        "url (shape cfg providerUrl q fl) = pre @ ''q='' @ encodeURIComponent q @ rest"
        by auto
      then have "url (shape cfg providerUrl q fl) = (pre @ ''q='') @ encodeURIComponent q @ rest"
        by simp
      then show ?thesis by (simp only: includes_str_middle)
    qed
  qed
  from m a b c d show ?thesis by blast
qed

text \<open>
  The claim as the spec words it fails in two ways. An identifier with a parameter \<open>q\<close>
  that ends with \<open>=\<close> gets the text appended, where the spec's order replaces the value of
  \<open>q\<close>. And the encoded text can occur more than once in the URL: \<open>s\<close> occurs three times
  in \<open>http://x.test/s?n=s\<close>.
\<close>

theorem get_url_rule_counterexample:
  "includes_str ''http://x.test/s?q=a&k='' ''?'' \<and> includes_str ''http://x.test/s?q=a&k='' ''=''
   \<and> \<not> includes_str ''http://x.test/s?q=a&k='' ''image=''
   \<and> includes_str ''http://x.test/s?q=a&k='' ''q=''
   \<and> meth (shape cfg0 ''http://x.test/s?q=a&k='' ''hi'' None) = GET
   \<and> url (shape cfg0 ''http://x.test/s?q=a&k='' ''hi'' None) = ''http://x.test/s?q=a&k=hi''
   \<and> spec_urlToCall ''http://x.test/s?q=a&k='' ''hi'' = ''http://x.test/s?q=hi&k=''
   \<and> url (shape cfg0 ''http://x.test/s?q=a&k='' ''hi'' None)
        \<noteq> spec_urlToCall ''http://x.test/s?q=a&k='' ''hi''
   \<and> meth (shape cfg0 ''http://x.test/s?n='' ''s'' None) = GET
   \<and> url (shape cfg0 ''http://x.test/s?n='' ''s'' None) = ''http://x.test/s?n=s''
   \<and> encodeURIComponent ''s'' = ''s''
   \<and> occurrences (url (shape cfg0 ''http://x.test/s?n='' ''s'' None)) (encodeURIComponent ''s'') = 3"
  by (simp add: concrete_defs eval_defs)

theorem get_url_rule_witness:
  "url (shape cfg0 ''http://b.test/ask?q='' ''hi there'' None) = ''http://b.test/ask?q=hi%20there''
   \<and> url (shape cfg0 ''http://b.test/ask?lang=q&q=old&n=1'' ''hi there'' None)
        = ''http://b.test/ask?lang=q&q=hi%20there&n=1''
   \<and> url (shape cfg0 ''http://b.test/ask?n=1&text'' ''hi there'' None)
        = ''http://b.test/ask?n=1&texthi%20there''
   \<and> includes_str (url (shape cfg0 ''http://b.test/ask?lang=q&q=old&n=1'' ''hi there'' None))
         (encodeURIComponent ''hi there'')"
  using get_url_rule [of "''http://b.test/ask?q=''" cfg0 "''hi there''" None]
        get_url_rule [of "''http://b.test/ask?lang=q&q=old&n=1''" cfg0 "''hi there''" None]
        get_url_rule [of "''http://b.test/ask?n=1&text''" cfg0 "''hi there''" None]
  by (simp add: concrete_defs eval_defs)

section \<open>Exhaustion: claim C3\<close>

text \<open>
  Claim C3: when a request reaches the provider loop and every axios call fails, the
  response is the 502 "All providers failed.", every provider of the list was invoked
  once and in order, each of them was attempted exactly \<open>ATTEMPTS\<close> times (so at most that
  often), and each call returned the failure carrying the error of its last attempt (with
  a budget of 0 no attempt is made and the failure is "Max attempts reached"). The events
  of the invocations are what was done to the world, and nothing is stored in the cache.
\<close>

theorem all_providers_failed:
  assumes run: "chat cfg stringify env req c w = (resp, ivs, c', w')"
      and valid: "query_text req \<noteq> [] \<or> upload req \<noteq> None"
      and miss: "\<not> truthy (fst (cache_get c (''chat:'' @ query_text req) (clock env w)))"
      and configured: "effective_providers cfg req \<noteq> []"
      and down: "\<And>w0 rq. isl (fst (send env w0 rq))"
  shows "resp = Response 502 (Text ''All providers failed.'')
   \<and> map provider ivs = effective_providers cfg req
   \<and> replay env w (concat (map events ivs)) = Some w'
   \<and> c' = snd (cache_get c (''chat:'' @ query_text req) (clock env w))
   \<and> (\<forall>iv \<in> set ivs. attempts (events iv) = ATTEMPTS cfg
         \<and> (if 0 < ATTEMPTS cfg
            then \<exists>e rq. outcome iv = Failure e
                   \<and> last (events iv) = Sent (ATTEMPTS cfg - 1) rq (Inl e)
            else outcome iv = Failure ''Max attempts reached'' \<and> events iv = []))"
proof -
  let ?k = "''chat:'' @ query_text req"
  obtain cached c1 where g: "cache_get c ?k (clock env w) = (cached, c1)"
    by (cases "cache_get c ?k (clock env w)")
  from run g miss configured have loop:
    "provider_loop cfg stringify env req ?k (effective_providers cfg req) 200 c1 w
       = (resp, ivs, c', w')"
    by (simp add: chat_valid [OF valid])
  have each: "attempts (events iv) = ATTEMPTS cfg
         \<and> (if 0 < ATTEMPTS cfg
            then \<exists>e rq. outcome iv = Failure e
                   \<and> last (events iv) = Sent (ATTEMPTS cfg - 1) rq (Inl e)
            else outcome iv = Failure ''Max attempts reached'' \<and> events iv = [])"
    if iv: "iv \<in> set ivs" for iv
  proof -
    from provider_loop_calls [OF loop iv] obtain w0 w1 where al:
      "attempt_loop cfg env (provider iv) (query_text req) (upload req) 0 w0
         = (outcome iv, events iv, w1)"
      by (auto simp: callProvider_def)
    have "\<forall>i rq x. Sent i rq x \<in> set (events iv) \<longrightarrow> isl x"
      using replay_sent [OF attempt_loop_replay [OF al]] down by metis
    from attempt_loop_all_failed [OF al this]
    show ?thesis by (auto split: if_splits)
  qed
  have fail: "\<exists>e. outcome iv = Failure e" if "iv \<in> set ivs" for iv
    using each [OF that] by (cases "0 < ATTEMPTS cfg") auto
  have "\<forall>iv \<in> set ivs. \<not> truthy (answer_of stringify (outcome iv))"
    using fail by fastforce
  from provider_loop_unusable [OF loop this]
  have r: "resp = Response 502 (Text ''All providers failed.'')"
    and l: "length ivs = length (effective_providers cfg req)" and c: "c' = c1"
    by simp_all
  from provider_loop_order [OF loop] l
  have m: "map provider ivs = effective_providers cfg req" by simp
  from c g have c2: "c' = snd (cache_get c ?k (clock env w))" by simp
  from r m provider_loop_replay [OF loop] c2 each show ?thesis by blast
qed

theorem all_providers_failed_witness:
  "fst run_down = Response 502 (Text ''All providers failed.'')
   \<and> map provider (fst (snd run_down)) = [''http://a.test/ask'', ''http://b.test/ask?q='']
   \<and> map outcome (fst (snd run_down)) = [Failure ''timeout'', Failure ''timeout'']
   \<and> map (attempts \<circ> events) (fst (snd run_down)) = [2, 2]
   \<and> ATTEMPTS cfg0 = 2
   \<and> replay env_down 0 (concat (map events (fst (snd run_down)))) = Some 28400
   \<and> snd (snd (snd run_down)) = 28400"
  using all_providers_failed [of cfg0 stub_stringify env_down "req_text ''foo''" Map.empty 0
               "fst run_down" "fst (snd run_down)" "fst (snd (snd run_down))"
               "snd (snd (snd run_down))"]
  by (simp add: concrete_defs eval_defs)

section \<open>The multipart shape: claim C4\<close>

text \<open>
  Claim C4: with a file attached and \<open>image=\<close> in the provider identifier the request is a
  POST to the identifier cut at its first \<open>?\<close>, its multipart body binds \<open>image\<close> to the
  file's stream and has the field \<open>q\<close> exactly when the query text is not empty, whatever
  else the identifier contains; and this is the request every attempt of \<open>callProvider\<close>
  sends.
\<close>

theorem multipart_shape_selected:
  assumes "includes_str providerUrl ''image=''"
  shows "meth (shape cfg providerUrl q (Some path)) = POST
     \<and> url (shape cfg providerUrl q (Some path)) = takeWhile (\<lambda>c. c \<noteq> CHR ''?'') providerUrl
     \<and> (\<exists>rest. providerUrl = url (shape cfg providerUrl q (Some path)) @ rest
              \<and> CHR ''?'' \<notin> set (url (shape cfg providerUrl q (Some path)))
              \<and> (rest = [] \<or> hd rest = CHR ''?''))
     \<and> payload (shape cfg providerUrl q (Some path)) =
         Multipart ((''image'', FileStream path) # (if q = [] then [] else [(''q'', TextField q)]))
     \<and> (\<forall>i rq r. Sent i rq r \<in> set (fst (snd (callProvider cfg env providerUrl req (Some path) w)))
           \<longrightarrow> rq = shape cfg providerUrl (query_text req) (Some path))"
proof -
  let ?u = "takeWhile (\<lambda>c. c \<noteq> CHR ''?'') providerUrl"
  let ?rest = "dropWhile (\<lambda>c. c \<noteq> CHR ''?'') providerUrl"
  have sh: "shape cfg providerUrl q (Some path) = shape_multipart cfg providerUrl q path"
    using assms by (simp add: shape_def)
  have u: "url (shape cfg providerUrl q (Some path)) = ?u"
    by (simp add: sh shape_multipart_def split_first_def)
  have "providerUrl = ?u @ ?rest" by simp
  moreover have "CHR ''?'' \<notin> set ?u" by (auto dest: set_takeWhileD)
  moreover have "?rest = [] \<or> hd ?rest = CHR ''?''"
    using hd_dropWhile [of "\<lambda>c. c \<noteq> CHR ''?''" providerUrl] by auto
  ultimately have dec: "\<exists>rest. providerUrl = ?u @ rest \<and> CHR ''?'' \<notin> set ?u
       \<and> (rest = [] \<or> hd rest = CHR ''?'')" by blast
  have sent: "\<forall>i rq r. Sent i rq r \<in> set (fst (snd (callProvider cfg env providerUrl req (Some path) w)))
           \<longrightarrow> rq = shape cfg providerUrl (query_text req) (Some path)"
    unfolding callProvider_def
    by (metis attempt_loop_sent prod.collapse)
  have m: "meth (shape cfg providerUrl q (Some path)) = POST"
    by (simp add: sh shape_multipart_def)
  have p: "payload (shape cfg providerUrl q (Some path)) =
         Multipart ((''image'', FileStream path) # (if q = [] then [] else [(''q'', TextField q)]))"
    by (simp add: sh shape_multipart_def)
  from dec have dec': "\<exists>rest. providerUrl = url (shape cfg providerUrl q (Some path)) @ rest
              \<and> CHR ''?'' \<notin> set (url (shape cfg providerUrl q (Some path)))
              \<and> (rest = [] \<or> hd rest = CHR ''?'')"
    unfolding u .
  from m u dec' p sent show ?thesis by blast
qed


theorem multipart_shape_selected_witness:
  "includes_str ''http://v.test/up?image='' ''image=''
   \<and> meth (shape cfg0 ''http://v.test/up?image='' ''cat'' (Some ''/u/1.png'')) = POST
   \<and> url (shape cfg0 ''http://v.test/up?image='' ''cat'' (Some ''/u/1.png'')) = ''http://v.test/up''
   \<and> payload (shape cfg0 ''http://v.test/up?image='' ''cat'' (Some ''/u/1.png''))
       = Multipart [(''image'', FileStream ''/u/1.png''), (''q'', TextField ''cat'')]
   \<and> Sent 0 (shape cfg0 ''http://v.test/up?image='' ''cat'' (Some ''/u/1.png'')) (Inl ''timeout'')
       \<in> set (fst (snd (callProvider cfg0 env_down ''http://v.test/up?image=''
                           (req_image ''cat'' ''/u/1.png'') (Some ''/u/1.png'') 0)))"
proof -
  have h: "includes_str ''http://v.test/up?image='' ''image=''" by simp
  have s: "Sent 0 (shape cfg0 ''http://v.test/up?image='' ''cat'' (Some ''/u/1.png'')) (Inl ''timeout'')
       \<in> set (fst (snd (callProvider cfg0 env_down ''http://v.test/up?image=''
                           (req_image ''cat'' ''/u/1.png'') (Some ''/u/1.png'') 0)))"
    by (simp add: callProvider_def attempt_loop.simps cfg0_def env_down_def send_down_def
          req_image_def query_text_def)
  from multipart_shape_selected [OF h, of cfg0 "''cat''" "''/u/1.png''" env_down
         "req_image ''cat'' ''/u/1.png''" 0] h s
  show ?thesis by simp
qed

section \<open>The answer normalizer: claims C5 and C6\<close>

lemma extractAnswer_truthy:
  "truthy d \<Longrightarrow> truthy (extractAnswer sf d) \<or> extractAnswer sf d = JStr (sf d)"
  unfolding extractAnswer_def
  by (auto simp: opt_prop_def opt_index0_def split: if_splits)

text \<open>
  Claim C5, as the code has it: a string payload that is not empty is returned unchanged;
  the empty string is falsy, so the first line of \<open>extractAnswer\<close> answers \<open>null\<close> for it.
\<close>

theorem extractAnswer_string:
  "extractAnswer stringify (JStr s) = (if s = [] then JNull else JStr s)"
  by (simp add: extractAnswer_def)

text \<open>The claim as the spec words it fails at the empty string.\<close>

theorem extractAnswer_empty_string_counterexample:
  "extractAnswer stub_stringify (JStr []) = JNull \<and> JNull \<noteq> JStr []"
  by (simp add: extractAnswer_def)

theorem extractAnswer_string_witness:
  "extractAnswer stub_stringify (JStr ''42 is the answer'') = JStr ''42 is the answer''"
  using extractAnswer_string [of stub_stringify "''42 is the answer''"] by simp

text \<open>
  Claim C6, as the code has it: \<open>extractAnswer\<close> answers \<open>null\<close> exactly for the falsy
  payloads (undefined, null, false, 0 and the empty string). A truthy payload that is a
  string is returned as it is; one that is not a string is answered by the first of its
  recognised fields that is truthy when that field is a string, and by the string of its
  serialization when none of its recognised fields is truthy.
\<close>

theorem extractAnswer_absent_iff_falsy:
  "(extractAnswer stringify d = JNull \<longleftrightarrow> \<not> truthy d)
   \<and> (truthy d \<and> is_string d \<longrightarrow> extractAnswer stringify d = d)
   \<and> (truthy d \<and> \<not> is_string d \<and> find truthy (probes d) = None
        \<longrightarrow> extractAnswer stringify d = JStr (stringify d))
   \<and> (\<forall>v. truthy d \<and> \<not> is_string d \<and> find truthy (probes d) = Some v \<and> is_string v
        \<longrightarrow> extractAnswer stringify d = v)"
proof (intro conjI allI impI)
  show "extractAnswer stringify d = JNull \<longleftrightarrow> \<not> truthy d"
  proof
    assume "extractAnswer stringify d = JNull"
    then show "\<not> truthy d"
      using extractAnswer_truthy [of d stringify] by auto
  next
    assume "\<not> truthy d"
    then show "extractAnswer stringify d = JNull" by (simp add: extractAnswer_def)
  qed
next
  assume "truthy d \<and> is_string d"
  then show "extractAnswer stringify d = d" by (simp add: extractAnswer_def)
next
  assume "truthy d \<and> \<not> is_string d \<and> find truthy (probes d) = None"
  then show "extractAnswer stringify d = JStr (stringify d)"
    by (simp add: extractAnswer_def probes_def split: if_splits)
next
  fix v
  assume "truthy d \<and> \<not> is_string d \<and> find truthy (probes d) = Some v \<and> is_string v"
  then show "extractAnswer stringify d = v"
    by (auto simp: extractAnswer_def probes_def opt_prop_def opt_index0_def split: if_splits)
qed

text \<open>The payloads 0 and false are neither null nor undefined and are answered by
  \<open>null\<close>, not by a string.\<close>

theorem extractAnswer_falsy_counterexample:
  "extractAnswer stub_stringify (JNum 0) = JNull \<and> \<not> nullish (JNum 0)
   \<and> extractAnswer stub_stringify (JBool False) = JNull \<and> \<not> nullish (JBool False)
   \<and> \<not> is_string JNull"
  by (simp add: extractAnswer_def)

theorem extractAnswer_absent_iff_falsy_witness:
  "extractAnswer stub_stringify (JObj [(''status'', JNum 1)])
     = JStr (stub_stringify (JObj [(''status'', JNum 1)]))
   \<and> extractAnswer stub_stringify JUndefined = JNull
   \<and> extractAnswer stub_stringify (JStr ''ok'') = JStr ''ok''
   \<and> find truthy (probes (JObj [(''result'', JStr []), (''answer'', JStr ''ok'')]))
       = Some (JStr ''ok'')
   \<and> extractAnswer stub_stringify (JObj [(''result'', JStr []), (''answer'', JStr ''ok'')])
       = JStr ''ok''"
  using extractAnswer_absent_iff_falsy [of stub_stringify "JObj [(''status'', JNum 1)]"]
        extractAnswer_absent_iff_falsy [of stub_stringify JUndefined]
        extractAnswer_absent_iff_falsy [of stub_stringify "JStr ''ok''"]
        extractAnswer_absent_iff_falsy [of stub_stringify
          "JObj [(''result'', JStr []), (''answer'', JStr ''ok'')]"]
  by (simp add: probes_def opt_prop_def opt_index0_def)

section \<open>The back-off: claim C7\<close>

text \<open>
  Claim C7, as the code has it: within one call of \<open>callProvider\<close>, a failed attempt of
  index \<open>i\<close> (counted from 0) that is not the last allowed one is followed by a pause of
  \<open>200 * (i + 1)\<close> milliseconds and then by the attempt of index \<open>i + 1\<close> with the same
  request: when the failed attempt has left the world \<open>w1\<close>, the next attempt is made in
  the world \<open>pause env w1 (200 * (i + 1))\<close>. The events of the call are what it did to the
  world.
\<close>

theorem backoff_after_failed_attempt:
  assumes run: "callProvider cfg env providerUrl req fl w = (r, evs, w')"
      and k: "k < length evs" and at: "evs ! k = Sent i rq (Inl e)"
      and more: "i \<noteq> ATTEMPTS cfg - 1"
  shows "k + 2 < length evs \<and> evs ! (k + 1) = Slept (200 * (i + 1))
     \<and> replay env w evs = Some w'
     \<and> (\<exists>w0 w1 x w2. replay env w (take k evs) = Some w0
            \<and> send env w0 rq = (Inl e, w1)
            \<and> send env (pause env w1 (200 * (i + 1))) rq = (x, w2)
            \<and> evs ! (k + 2) = Sent (i + 1) rq x)"
proof -
  from run have al: "attempt_loop cfg env providerUrl (query_text req) fl 0 w = (r, evs, w')"
    by (simp add: callProvider_def)
  from attempt_loop_backoff [OF al k at more] obtain x where
    len: "k + 2 < length evs" and sl: "evs ! (k + 1) = Slept (200 * (i + 1))"
    and nx: "evs ! (k + 2) = Sent (i + 1) rq x"
    by blast
  note rp = attempt_loop_replay [OF al]
  from replay_split [OF rp, of k] obtain w0 where
    w0: "replay env w (take k evs) = Some w0" and rest: "replay env w0 (drop k evs) = Some w'"
    by blast
  from len have "drop k evs = evs ! k # evs ! (k + 1) # evs ! (k + 2) # drop (k + 3) evs"
    by (simp add: Cons_nth_drop_Suc [symmetric] numeral_3_eq_3)
  with at sl nx have d: "drop k evs = Sent i rq (Inl e) # Slept (200 * (i + 1))
                           # Sent (i + 1) rq x # drop (k + 3) evs"
    by simp
  from rest [unfolded d] have f1: "fst (send env w0 rq) = Inl e"
    and f2: "fst (send env (pause env (snd (send env w0 rq)) (200 * (i + 1))) rq) = x"
    by (auto split: if_splits)
  from f1 have s1: "send env w0 rq = (Inl e, snd (send env w0 rq))"
    by (metis prod.collapse)
  from f2 have s2: "send env (pause env (snd (send env w0 rq)) (200 * (i + 1))) rq
                      = (x, snd (send env (pause env (snd (send env w0 rq)) (200 * (i + 1))) rq))"
    by (metis prod.collapse)
  from w0 s1 s2 nx have "\<exists>w0 w1 x w2. replay env w (take k evs) = Some w0
            \<and> send env w0 rq = (Inl e, w1)
            \<and> send env (pause env w1 (200 * (i + 1))) rq = (x, w2)
            \<and> evs ! (k + 2) = Sent (i + 1) rq x"
    by blast
  with len sl rp show ?thesis by blast
qed

text \<open>The claim as the spec words it has the pause \<open>i * baseDelay\<close>, which is 0 after the
  first attempt (index 0); the code pauses for 200 milliseconds there: the call, whose
  two attempts take 7000 milliseconds each, ends at 14200.\<close>

theorem backoff_index_counterexample:
  "fst (snd call_down)
     = [Sent 0 (shape cfg0 ''http://a.test/ask'' ''foo'' None) (Inl ''timeout''),
        Slept 200,
        Sent 1 (shape cfg0 ''http://a.test/ask'' ''foo'' None) (Inl ''timeout'')]
   \<and> 0 \<noteq> ATTEMPTS cfg0 - 1 \<and> Slept 200 \<noteq> Slept (0 * 200)
   \<and> snd (snd call_down) = 14200 \<and> pause env_down 7000 200 = 7200"
  by (simp add: concrete_defs eval_defs)

theorem backoff_after_failed_attempt_witness:
  "fst (snd call_down) ! 0 = Sent 0 (shape cfg0 ''http://a.test/ask'' ''foo'' None) (Inl ''timeout'')
   \<and> 0 \<noteq> ATTEMPTS cfg0 - 1
   \<and> fst (snd call_down) ! 1 = Slept 200
   \<and> fst (snd call_down) ! 2 = Sent 1 (shape cfg0 ''http://a.test/ask'' ''foo'' None) (Inl ''timeout'')
   \<and> send env_down 0 (shape cfg0 ''http://a.test/ask'' ''foo'' None) = (Inl ''timeout'', 7000)
   \<and> send env_down (pause env_down 7000 200) (shape cfg0 ''http://a.test/ask'' ''foo'' None)
       = (Inl ''timeout'', 14200)
   \<and> replay env_down 0 (fst (snd call_down)) = Some 14200
   \<and> snd (snd call_down) = 14200"
  using backoff_after_failed_attempt [of cfg0 env_down "''http://a.test/ask''" "req_text ''foo''"
               None 0 "fst call_down" "fst (snd call_down)" "snd (snd call_down)" 0 0
               "shape cfg0 ''http://a.test/ask'' ''foo'' None" "''timeout''"]
  by (simp add: concrete_defs eval_defs)

section \<open>The cache: claims C8 and C10\<close>

text \<open>
  Claim C8: when a request with query text \<open>t\<close> has missed the cache and a provider's
  answer was sent for it, the normalized answer is in the cache under the key
  \<open>"chat:" + t\<close>, and a following request with the same text (one that has a text or a
  file) made before the entry expires gets the same response from the cache: no provider
  is invoked, the cache and the world stay as they are.
\<close>

theorem second_call_served_from_cache:
  assumes first: "chat cfg stringify env r1 c w = (resp, ivs, c1, w1)"
      and valid1: "query_text r1 \<noteq> [] \<or> upload r1 \<noteq> None"
      and miss: "\<not> truthy (fst (cache_get c (''chat:'' @ query_text r1) (clock env w)))"
      and configured: "effective_providers cfg r1 \<noteq> []"
      and succeeded: "resp \<noteq> Response 502 (Text ''All providers failed.'')"
      and same: "query_text r2 = query_text r1"
      and valid2: "query_text r2 \<noteq> [] \<or> upload r2 \<noteq> None"
      and window: "CACHE_TTL cfg = 0 \<or> clock env w2 \<le> clock env w1 + CACHE_TTL cfg * 1000"
  shows "ivs \<noteq> []
       \<and> c1 (''chat:'' @ query_text r1)
           = Some (answer_of stringify (outcome (last ivs)),
                   if CACHE_TTL cfg = 0 then 0 else clock env w1 + CACHE_TTL cfg * 1000)
       \<and> fst (res_send 200 (answer_of stringify (outcome (last ivs)))) = Some resp
       \<and> chat cfg stringify env r2 c1 w2 = (resp, [], c1, w2)"
proof -
  let ?k = "''chat:'' @ query_text r1"
  let ?a = "answer_of stringify (outcome (last ivs))"
  let ?t = "if CACHE_TTL cfg = 0 then 0 else clock env w1 + CACHE_TTL cfg * 1000"
  obtain cached c0 where g: "cache_get c ?k (clock env w) = (cached, c0)"
    by (cases "cache_get c ?k (clock env w)")
  from first g miss configured have loop:
    "provider_loop cfg stringify env r1 ?k (effective_providers cfg r1) 200 c0 w
       = (resp, ivs, c1, w1)"
    by (simp add: chat_valid [OF valid1])
  from provider_loop_sent [OF loop _ succeeded]
  have ne: "ivs \<noteq> []" and a: "truthy ?a" and sent: "fst (res_send 200 ?a) = Some resp"
    and stored: "c1 ?k = Some (?a, ?t)"
    by simp_all
  have "cache_get c1 ?k (clock env w2) = (?a, c1)"
    using window by (intro cache_get_live [of c1 ?k ?a ?t "clock env w2"] stored) auto
  with a sent same have "chat cfg stringify env r2 c1 w2 = (resp, [], c1, w2)"
    by (simp add: chat_valid [OF valid2] res_send_uncaught_def)
  with ne stored sent show ?thesis by blast
qed

theorem second_call_served_from_cache_witness:
  "fst run_ab = Response 200 (Text ''ok'')
   \<and> fst (cache_get Map.empty ''chat:foo'' (clock env_ab 0)) = JUndefined
   \<and> effective_providers cfg0 (req_text ''foo'') = PROVIDERS cfg0
   \<and> snd (snd (snd run_ab)) = 14201
   \<and> clock env_ab 20000 \<le> clock env_ab (snd (snd (snd run_ab))) + CACHE_TTL cfg0 * 1000
   \<and> fst (snd (snd run_ab)) ''chat:foo'' = Some (JStr ''ok'', 44201)
   \<and> chat cfg0 stub_stringify env_ab (req_text ''foo'') (fst (snd (snd run_ab))) 20000
       = (Response 200 (Text ''ok''), [], fst (snd (snd run_ab)), 20000)"
  using second_call_served_from_cache [of cfg0 stub_stringify env_ab "req_text ''foo''"
               Map.empty 0 "fst run_ab" "fst (snd run_ab)" "fst (snd (snd run_ab))"
               "snd (snd (snd run_ab))" "req_text ''foo''" 20000]
  by (simp add: concrete_defs eval_defs)

text \<open>
  Claim C10 fails on the code. A provider answers \<open>{"result": 42}\<close>: the handler stores 42
  under \<open>chat:foo\<close> before \<open>res.send(42)\<close> throws, and the request ends with the 502. The
  next request for \<open>foo\<close> finds the live entry and calls \<open>res.send(42)\<close> outside every
  \<open>try\<close>: no provider is asked and the empty provider list is never looked at, but the
  cached answer is not returned, the handler throws.
\<close>

theorem cached_number_not_returned:
  "fst run_42_a = Response 502 (Text ''All providers failed.'')
   \<and> fst (snd (snd run_42_a)) ''chat:foo'' = Some (JNum 42, 30001)
   \<and> cache_get (fst (snd (snd run_42_a))) ''chat:foo'' 1000 = (JNum 42, fst (snd (snd run_42_a)))
   \<and> effective_providers cfg_none (req_text ''foo'') = []
   \<and> chat cfg_none stub_stringify env_42 (req_text ''foo'') (fst (snd (snd run_42_a))) 1000
       = (Rejected, [], fst (snd (snd run_42_a)), 1000)"
  by (simp add: concrete_defs eval_defs)

section \<open>Missing input: claim C9\<close>

text \<open>
  Claim C9: a request with neither a query text (absent or empty in body and query string)
  nor a file gets the 400 "Missing q (query) or file."; no provider is invoked, and the
  cache and the world stay as they are.
\<close>

theorem chat_missing_input:
  assumes "body_q req = None \<or> body_q req = Some []"
      and "query_q req = None \<or> query_q req = Some []"
      and "upload req = None"
  shows "chat cfg sf env req c w = (Response 400 (Text ''Missing q (query) or file.''), [], c, w)"
proof -
  from assms(1,2) have "query_text req = []" by (auto simp: query_text_def)
  with assms(3) show ?thesis by (simp add: chat_def res_send_uncaught_handler)
qed

theorem chat_missing_input_witness:
  "body_q req_nothing = Some [] \<and> query_q req_nothing = None \<and> upload req_nothing = None
   \<and> chat cfg0 stub_stringify env_ab req_nothing cache_foo 0
       = (Response 400 (Text ''Missing q (query) or file.''), [], cache_foo, 0)"
  using chat_missing_input [of req_nothing cfg0 stub_stringify env_ab cache_foo 0]
  by (simp add: req_nothing_def)

end
